theory Spec2Isabelle
  imports Main
begin

section \<open>JavaScript strings\<close>

text \<open>
  A string of the program is a list of code units. The model covers the code units
  below 256, one \<^typ>\<open>char\<close> each; an index is a position in that list, and a
  search that finds nothing returns \<open>-1\<close>, as \<^verbatim>\<open>indexOf\<close> does.
\<close>

definition starts_with :: "string \<Rightarrow> string \<Rightarrow> bool" where
  "starts_with p s = (take (length p) s = p)"

fun find_from :: "string \<Rightarrow> nat \<Rightarrow> string \<Rightarrow> int" where
  "find_from p i [] = (if p = [] then int i else -1)"
| "find_from p i (c # cs) =
     (if starts_with p (c # cs) then int i else find_from p (Suc i) cs)"

definition clamp_index :: "string \<Rightarrow> int \<Rightarrow> nat" where
  "clamp_index s from = nat (max 0 (min from (int (length s))))"

definition indexOf :: "string \<Rightarrow> string \<Rightarrow> int \<Rightarrow> int" where
  "indexOf s p from = find_from p (clamp_index s from) (drop (clamp_index s from) s)"

fun rfind :: "string \<Rightarrow> string \<Rightarrow> nat \<Rightarrow> int" where
  "rfind s p 0 = (if starts_with p s then 0 else -1)"
| "rfind s p (Suc j) =
     (if starts_with p (drop (Suc j) s) then int (Suc j) else rfind s p j)"

definition lastIndexOf :: "string \<Rightarrow> string \<Rightarrow> int \<Rightarrow> int" where
  "lastIndexOf s p from = rfind s p (clamp_index s from)"

definition includes_str :: "string \<Rightarrow> string \<Rightarrow> bool" where
  "includes_str s p = (indexOf s p 0 \<noteq> -1)"

text \<open>\<^verbatim>\<open>\s\<close> and \<^verbatim>\<open>trim\<close> use the same set of code units: below 256 these are
  tab, line feed, vertical tab, form feed, carriage return, space and U+00A0.\<close>

definition is_space :: "char \<Rightarrow> bool" where
  "is_space c = (of_char c \<in> {9, 10, 11, 12, 13, 32, 160 :: nat})"

text \<open>\<^verbatim>\<open>\w\<close> is \<^verbatim>\<open>[A-Za-z0-9_]\<close>.\<close>

definition is_word :: "char \<Rightarrow> bool" where
  "is_word c = (let n = of_char c :: nat in
     (48 \<le> n \<and> n \<le> 57) \<or> (65 \<le> n \<and> n \<le> 90) \<or> n = 95 \<or> (97 \<le> n \<and> n \<le> 122))"

definition lower_char :: "char \<Rightarrow> char" where
  "lower_char c = (let n = of_char c :: nat in
     if (65 \<le> n \<and> n \<le> 90) \<or> (192 \<le> n \<and> n \<le> 222 \<and> n \<noteq> 215)
     then char_of (n + 32) else c)"

definition toLowerCase :: "string \<Rightarrow> string" where
  "toLowerCase s = map lower_char s"

definition trim :: "string \<Rightarrow> string" where
  "trim s = rev (dropWhile is_space (rev (dropWhile is_space s)))"

text \<open>\<^verbatim>\<open>s.split(sep)\<close> for a separator of one code unit; the result is never empty
  (\<^verbatim>\<open>''.split(',')\<close> is \<^verbatim>\<open>['']\<close>).\<close>

fun split_on :: "char \<Rightarrow> string \<Rightarrow> string list" where
  "split_on sep [] = [[]]"
| "split_on sep (c # cs) =
     (let r = split_on sep cs
      in if c = sep then [] # r else (c # hd r) # tl r)"

text \<open>\<^verbatim>\<open>a[i]\<close> on an array: \<^verbatim>\<open>undefined\<close> out of range.\<close>

definition at_index :: "'a list \<Rightarrow> int \<Rightarrow> 'a option" where
  "at_index xs i = (if 0 \<le> i \<and> i < int (length xs) then Some (xs ! nat i) else None)"

text \<open>\<^verbatim>\<open>x || ''\<close> on a string or undefined value.\<close>

definition or_empty :: "string option \<Rightarrow> string" where
  "or_empty x = (case x of None \<Rightarrow> [] | Some s \<Rightarrow> s)"

text \<open>The decimal digits of a count, as a template literal prints it.\<close>

fun show_nat :: "nat \<Rightarrow> string" where
  "show_nat n =
     (if n < 10 then [char_of (48 + n)]
      else show_nat (n div 10) @ [char_of (48 + n mod 10)])"

declare show_nat.simps [simp del]

section \<open>Objects\<close>

text \<open>
  An object with data-dependent keys (a ruleset, the allow table) is the list of its own
  properties in insertion order: assigning to a key that exists keeps its place,
  assigning to a new key appends it. Three points of the language are left out. Keys that
  read as array indices are enumerated first; no registered rule has such an id, and an
  entry without a rule is skipped, so the order of the entries that matter is the one
  kept here. A lookup also finds what every object inherits (\<^verbatim>\<open>constructor\<close>, ...); no
  registered rule has such an id either, and line numbers are never such names. Assigning
  a number to the key \<^verbatim>\<open>__proto__\<close> creates no property, where \<open>obj_set\<close> adds an entry; no
  registered rule has that id, so the entry is one without a rule and is skipped.
\<close>

fun obj_set :: "'k \<Rightarrow> 'v \<Rightarrow> ('k \<times> 'v) list \<Rightarrow> ('k \<times> 'v) list" where
  "obj_set k v [] = [(k, v)]"
| "obj_set k v ((k', v') # kvs) =
     (if k = k' then (k, v) # kvs else (k', v') # obj_set k v kvs)"

definition obj_get :: "('k \<times> 'v) list \<Rightarrow> 'k \<Rightarrow> 'v option" where
  "obj_get obj k = map_of obj k"

type_synonym ruleset = "(string \<times> int) list"
type_synonym allow_table = "(int \<times> string list) list"
type_synonym ignore_ranges = "(int \<times> int) list"

text \<open>
  Rulesets are shared: \<^verbatim>\<open>verify\<close> may write to the object its caller passed, and the
  Reporter keeps a reference to the ruleset it was built with. The store holds every
  ruleset object; a reference is an index into it, and allocation appends.
\<close>

type_synonym ref = nat
type_synonym store = "ruleset list"

definition alloc :: "store \<Rightarrow> ruleset \<Rightarrow> ref \<times> store" where
  "alloc h rs = (length h, h @ [rs])"

section \<open>Reporter\<close>

datatype severity = Info | Warning | Error

text \<open>A message object. \<open>m_rule\<close> is the \<^verbatim>\<open>id\<close> of the rule object attached to the
  message (\<open>None\<close> for the empty object \<^verbatim>\<open>{}\<close>); a field the object lacks is \<open>None\<close>,
  and \<open>m_rollup\<close> is false when the object has no \<^verbatim>\<open>rollup\<close> field.\<close>

record message =
  m_type :: severity
  m_evidence :: "string option"
  m_line :: "int option"
  m_col :: "int option"
  m_message :: string
  m_rule :: "string option"
  m_rollup :: bool

text \<open>The position argument of \<^verbatim>\<open>error\<close>, \<^verbatim>\<open>report\<close> and \<^verbatim>\<open>info\<close>: any object, of
  which \<^verbatim>\<open>line\<close> and \<^verbatim>\<open>col\<close> are read, each defaulting to 1 when undefined.\<close>

record position =
  p_line :: "int option"
  p_col :: "int option"

definition line_of :: "position \<Rightarrow> int" where
  "line_of p = (case p_line p of None \<Rightarrow> 1 | Some l \<Rightarrow> l)"

definition col_of :: "position \<Rightarrow> int" where
  "col_of p = (case p_col p of None \<Rightarrow> 1 | Some c \<Rightarrow> c)"

record reporter =
  r_messages :: "message list"
  r_stats :: "(string \<times> nat) list"
  r_lines :: "string list"
  r_ruleset :: ref
  r_allow :: allow_table
  r_ignore :: ignore_ranges

definition new_Reporter :: "string list \<Rightarrow> ref \<Rightarrow> allow_table \<Rightarrow> ignore_ranges \<Rightarrow> reporter" where
  "new_Reporter lines rs allow ignore =
     \<lparr>r_messages = [], r_stats = [], r_lines = lines, r_ruleset = rs,
      r_allow = allow, r_ignore = ignore\<rparr>"

definition push :: "message \<Rightarrow> reporter \<Rightarrow> reporter" where
  "push m r = r\<lparr>r_messages := r_messages r @ [m]\<rparr>"

definition positional :: "severity \<Rightarrow> reporter \<Rightarrow> string \<Rightarrow> position \<Rightarrow> string option \<Rightarrow> message" where
  "positional t r msg pos rid =
     \<lparr>m_type = t, m_evidence = at_index (r_lines r) (line_of pos - 1),
      m_line = Some (line_of pos), m_col = Some (col_of pos),
      m_message = msg, m_rule = rid, m_rollup = False\<rparr>"

definition error :: "reporter \<Rightarrow> string \<Rightarrow> position \<Rightarrow> string option \<Rightarrow> reporter" where
  "error r msg pos rid = push (positional Error r msg pos rid) r"

definition allowed :: "reporter \<Rightarrow> int \<Rightarrow> string \<Rightarrow> bool" where
  "allowed r l rid =
     (case obj_get (r_allow r) l of None \<Rightarrow> False | Some ids \<Rightarrow> rid \<in> set ids)"

definition ignored :: "reporter \<Rightarrow> int \<Rightarrow> bool" where
  "ignored r l = list_ex (\<lambda>range. fst range \<le> l \<and> l \<le> snd range) (r_ignore r)"

definition level_of :: "store \<Rightarrow> reporter \<Rightarrow> string \<Rightarrow> int option" where
  "level_of h r rid = obj_get (h ! r_ruleset r) rid"

definition report :: "store \<Rightarrow> reporter \<Rightarrow> string \<Rightarrow> position \<Rightarrow> string \<Rightarrow> reporter" where
  "report h r msg pos rid =
     (if allowed r (line_of pos) rid \<or> ignored r (line_of pos) then r
      else push (positional (if level_of h r rid = Some 2 then Error else Warning)
                   r msg pos (Some rid)) r)"

definition info :: "reporter \<Rightarrow> string \<Rightarrow> position \<Rightarrow> string option \<Rightarrow> reporter" where
  "info r msg pos rid = push (positional Info r msg pos rid) r"

definition rollup_message :: "severity \<Rightarrow> string \<Rightarrow> string option \<Rightarrow> message" where
  "rollup_message t msg rid =
     \<lparr>m_type = t, m_evidence = None, m_line = None, m_col = None,
      m_message = msg, m_rule = rid, m_rollup = True\<rparr>"

definition rollupError :: "reporter \<Rightarrow> string \<Rightarrow> string option \<Rightarrow> reporter" where
  "rollupError r msg rid = push (rollup_message Error msg rid) r"

definition rollupWarn :: "reporter \<Rightarrow> string \<Rightarrow> string option \<Rightarrow> reporter" where
  "rollupWarn r msg rid = push (rollup_message Warning msg rid) r"

definition stat :: "reporter \<Rightarrow> string \<Rightarrow> nat \<Rightarrow> reporter" where
  "stat r name v = r\<lparr>r_stats := obj_set name v (r_stats r)\<rparr>"

section \<open>Embedded directives\<close>

subsection \<open>The regular expression \<^verbatim>\<open>rxEmbedded\<close>\<close>

text \<open>
  \<^verbatim>\<open>/\/\*\s*csslint\s+((?:[^*]+|\*(?!\/))+?)\*\//ig\<close>

  The group takes one or more code units, each either not \<^verbatim>\<open>*\<close> or a \<^verbatim>\<open>*\<close> that no
  \<^verbatim>\<open>/\<close> follows, as few as possible, and \<^verbatim>\<open>*/\<close> must come next: so the group runs to
  the first \<^verbatim>\<open>*/\<close> and fails when that is where it starts.
\<close>

definition find_close :: "string \<Rightarrow> nat option" where
  "find_close s = (let k = indexOf s ''*/'' 0 in if k < 0 then None else Some (nat k))"

definition group_body :: "string \<Rightarrow> string option" where
  "group_body s =
     (case find_close s of
        None \<Rightarrow> None
      | Some e \<Rightarrow> if e = 0 then None else Some (take e s))"

text \<open>\<^verbatim>\<open>\s+\<close> is greedy and backtracks: it first takes the whole run of \<open>k\<close> white-space
  code units, and gives them back one at a time, down to one, until the group matches.\<close>

fun spaces_then_group :: "nat \<Rightarrow> string \<Rightarrow> (nat \<times> string) option" where
  "spaces_then_group 0 s = None"
| "spaces_then_group (Suc k) s =
     (case group_body (drop (Suc k) s) of
        Some g \<Rightarrow> Some (Suc k, g)
      | None \<Rightarrow> spaces_then_group k s)"

text \<open>A match anchored at the head of \<open>s\<close>: the group and the length of the match.
  With the \<^verbatim>\<open>i\<close> flag a code unit matches a letter of \<^verbatim>\<open>csslint\<close> when it is that
  letter in either case.\<close>

definition match_here :: "string \<Rightarrow> (string \<times> nat) option" where
  "match_here s =
     (if starts_with ''/*'' s then
        let s1 = dropWhile is_space (drop 2 s) in
        if toLowerCase (take 7 s1) = ''csslint'' then
          let s2 = drop 7 s1 in
          case spaces_then_group (length (takeWhile is_space s2)) s2 of
            None \<Rightarrow> None
          | Some (k, g) \<Rightarrow> Some (g, length s - length s2 + k + length g + 2)
        else None
      else None)"

fun search :: "nat \<Rightarrow> string \<Rightarrow> (nat \<times> string \<times> nat) option" where
  "search i [] = None"
| "search i (c # cs) =
     (case match_here (c # cs) of
        Some (g, n) \<Rightarrow> Some (i, g, i + n)
      | None \<Rightarrow> search (Suc i) cs)"

text \<open>\<^verbatim>\<open>rxEmbedded.exec(text)\<close> with the expression's \<^verbatim>\<open>lastIndex\<close> passed in: the
  leftmost match that starts at \<open>lastIndex\<close> or later, as \<open>(m.index, m[1], lastIndex')\<close>.\<close>

definition exec :: "string \<Rightarrow> nat \<Rightarrow> (nat \<times> string \<times> nat) option" where
  "exec text lastIndex =
     (if length text < lastIndex then None else search lastIndex (drop lastIndex text))"

subsection \<open>\<^verbatim>\<open>applyEmbeddedOverrides\<close>\<close>

record scan =
  s_ruleset :: ruleset
  s_allow :: allow_table
  s_ignore :: ignore_ranges
  s_ignoreStart :: "int option"
  s_ignoreEnd :: "int option"
  s_lineno :: int
  s_eol :: int

text \<open>The truth value of a number or \<^verbatim>\<open>null\<close>, and its value as a number.\<close>

definition truthy :: "int option \<Rightarrow> bool" where
  "truthy x = (case x of None \<Rightarrow> False | Some n \<Rightarrow> n \<noteq> 0)"

text \<open>The map from a level written in a directive to a level. For a value that names an
  inherited property the source stores that property, which is truthy and is not 2: the
  engine treats it as it treats 1, and 1 is what the model stores.\<close>

definition EBMEDDED_RULE_VALUE_MAP :: "string \<Rightarrow> int option" where
  "EBMEDDED_RULE_VALUE_MAP =
     map_of [(''true'', 2), (''2'', 2), ('''', 1), (''1'', 1), (''false'', 0), (''0'', 0)]"

text \<open>
  The inner loop that advances \<open>eol\<close> and \<open>lineno\<close> to the line of the match at \<open>idx\<close>.
  A match is never empty, so \<open>idx\<close> is below the length of the text wherever the source
  enters the loop; the guard says so, and the recursion is total.
\<close>

function advance_line :: "string \<Rightarrow> int \<Rightarrow> int \<Rightarrow> int \<Rightarrow> int \<times> int" where
  "advance_line text idx eol lineno =
     (if eol \<le> idx \<and> idx < int (length text) then
        let e = indexOf text [CHR 0x0A] (eol + 1);
            e' = (if e < 0 then int (length text) else e)
        in advance_line text idx e' (lineno + 1)
      else (eol, lineno))"
  by pat_completeness auto

lemma find_from_range:
  "find_from p i s = -1 \<or> (int i \<le> find_from p i s \<and> find_from p i s \<le> int (i + length s))"
proof (induction s arbitrary: i)
  case Nil
  then show ?case by simp
next
  case (Cons c cs)
  show ?case using Cons[of "Suc i"] by (simp; linarith)
qed

termination advance_line
proof (relation "measure (\<lambda>(t, idx, eol, lineno). nat (int (length t) - eol))", goal_cases)
  case 1
  then show ?case by simp
next
  case (2 t idx eol lineno e e')
  define k where "k = clamp_index t (eol + 1)"
  have e: "e = find_from [CHR 0x0A] k (drop k t)"
    using 2 by (simp add: indexOf_def k_def)
  have k: "int k = eol + 1 \<or> (eol + 1 < 0 \<and> k = 0)" "k \<le> length t"
    using 2 by (auto simp: k_def clamp_index_def)
  have "e = -1 \<or> (int k \<le> e \<and> e \<le> int (length t))"
    using find_from_range[of "[CHR 0x0A]" k "drop k t"] k unfolding e by auto
  then have "eol < e' \<and> e' \<le> int (length t)" using 2 k by auto
  then show ?case by simp
qed

declare advance_line.simps [simp del]

text \<open>\<^verbatim>\<open>case 'allow'\<close>: \<open>rest\<close> is \<^verbatim>\<open>ovr.slice(i)\<close>. The object \<^verbatim>\<open>allowRuleset\<close> is the
  list of its keys.\<close>

definition apply_allow :: "string \<Rightarrow> scan \<Rightarrow> scan" where
  "apply_allow rest s =
     (let allowRuleset = map trim (split_on CHR '','' rest);
          num = length (split_on CHR '','' rest)
      in if num \<noteq> 0 then s\<lparr>s_allow := obj_set (s_lineno s) allowRuleset (s_allow s)\<rparr>
         else s)"

text \<open>\<^verbatim>\<open>case 'ignore'\<close>.\<close>

definition num_of :: "int option \<Rightarrow> int" where
  "num_of x = (case x of None \<Rightarrow> 0 | Some n \<Rightarrow> n)"

definition apply_ignore :: "string \<Rightarrow> scan \<Rightarrow> scan" where
  "apply_ignore ovr s =
     (if includes_str ovr ''start'' then
        s\<lparr>s_ignoreStart :=
            (if truthy (s_ignoreStart s) then s_ignoreStart s else Some (s_lineno s))\<rparr>
      else if includes_str ovr ''end'' then
        (let s1 = s\<lparr>s_ignoreEnd := Some (s_lineno s)\<rparr>
         in if truthy (s_ignoreStart s1) \<and> truthy (s_ignoreEnd s1) then
              s1\<lparr>s_ignore := s_ignore s1 @ [(num_of (s_ignoreStart s1), num_of (s_ignoreEnd s1))],
                 s_ignoreStart := None, s_ignoreEnd := None\<rparr>
            else s1)
      else s)"

text \<open>The \<^verbatim>\<open>default\<close> case, for one element of \<^verbatim>\<open>ovr.slice(i).split(',')\<close>.\<close>

definition apply_rule :: "ruleset \<Rightarrow> string \<Rightarrow> ruleset" where
  "apply_rule rs rule =
     (let pair = split_on CHR '':'' rule;
          property = or_empty (at_index pair 0);
          val = or_empty (at_index pair 1);
          mapped = EBMEDDED_RULE_VALUE_MAP (trim val)
      in obj_set (trim property) (case mapped of None \<Rightarrow> 1 | Some v \<Rightarrow> v) rs)"

text \<open>The body of the outer loop after the line count, for the group \<open>g\<close> of a match.\<close>

definition directive :: "string \<Rightarrow> scan \<Rightarrow> scan" where
  "directive g s =
     (let ovr = toLowerCase g;
          cmd = hd (take 1 (split_on CHR '':'' ovr));
          i = length cmd + 1
      in if trim cmd = ''allow'' then apply_allow (drop i ovr) s
         else if trim cmd = ''ignore'' then apply_ignore ovr s
         else s\<lparr>s_ruleset := foldl apply_rule (s_ruleset s) (split_on CHR '','' (drop i ovr))\<rparr>)"

definition count_lines :: "string \<Rightarrow> nat \<Rightarrow> scan \<Rightarrow> scan" where
  "count_lines text idx s =
     (case advance_line text (int idx) (s_eol s) (s_lineno s) of
        (eol, lineno) \<Rightarrow> s\<lparr>s_eol := eol, s_lineno := lineno\<rparr>)"

function scan_loop :: "string \<Rightarrow> nat \<Rightarrow> scan \<Rightarrow> scan" where
  "scan_loop text lastIndex s =
     (case exec text lastIndex of
        None \<Rightarrow> s
      | Some (idx, g, lastIndex') \<Rightarrow>
          scan_loop text lastIndex' (directive g (count_lines text idx s)))"
  by pat_completeness auto

lemma find_from_hit:
  "find_from p i s = int j \<Longrightarrow> p \<noteq> [] \<Longrightarrow> i \<le> j \<and> j - i + length p \<le> length s"
proof (induction s arbitrary: i)
  case Nil
  then show ?case by simp
next
  case (Cons c cs)
  show ?case
  proof (cases "starts_with p (c # cs)")
    case True
    then have "length (take (length p) (c # cs)) = length p"
      unfolding starts_with_def by simp
    then have "length p \<le> length (c # cs)" by simp
    with True Cons.prems show ?thesis by simp
  next
    case False
    with Cons.prems have "find_from p (Suc i) cs = int j" by simp
    from Cons.IH[OF this Cons.prems(2)] show ?thesis by (simp, arith)
  qed
qed

lemma find_close_bound: "find_close s = Some e \<Longrightarrow> e + 2 \<le> length s"
proof -
  assume a: "find_close s = Some e"
  then have "find_from ''*/'' 0 s = int e"
    by (auto simp: find_close_def indexOf_def clamp_index_def Let_def split: if_splits)
  from find_from_hit[OF this] show ?thesis by simp
qed

lemma group_body_bound: "group_body s = Some g \<Longrightarrow> 0 < length g \<and> length g + 2 \<le> length s"
  by (auto simp: group_body_def split: option.splits if_splits dest!: find_close_bound)

lemma spaces_then_group_bound:
  "spaces_then_group k s = Some (k', g) \<Longrightarrow> 0 < k' \<and> k' + length g + 2 \<le> length s"
proof (induction k)
  case 0
  then show ?case by simp
next
  case (Suc k)
  then show ?case
    by (auto split: option.splits dest!: group_body_bound)
qed

lemma match_here_bound:
  assumes "match_here s = Some (g, n)"
  shows "0 < n \<and> n \<le> length s"
proof -
  define s1 where "s1 = dropWhile is_space (drop 2 s)"
  define s2 where "s2 = drop 7 s1"
  from assms have ci: "toLowerCase (take 7 s1) = ''csslint''"
    by (auto simp: match_here_def s1_def Let_def split: if_splits)
  from assms obtain k where k: "spaces_then_group (length (takeWhile is_space s2)) s2 = Some (k, g)"
    and n: "n = length s - length s2 + k + length g + 2"
    by (auto simp: match_here_def s1_def s2_def Let_def split: if_splits option.splits)
  from ci have "length (toLowerCase (take 7 s1)) = 7" by simp
  then have l1: "7 \<le> length s1" by (simp add: toLowerCase_def)
  have l2: "length s1 \<le> length s"
    unfolding s1_def using length_dropWhile_le[of is_space "drop 2 s"] by simp
  have l3: "length s2 = length s1 - 7" by (simp add: s2_def)
  from spaces_then_group_bound[OF k] have "k + length g + 2 \<le> length s2" by simp
  with l1 l2 l3 n show ?thesis by arith
qed

lemma search_bound:
  "search i s = Some (idx, g, j) \<Longrightarrow> i \<le> idx \<and> idx < j \<and> j \<le> i + length s \<and> idx < i + length s"
proof (induction s arbitrary: i)
  case Nil
  then show ?case by simp
next
  case (Cons c cs)
  show ?case
  proof (cases "match_here (c # cs)")
    case None
    with Cons.prems have "search (Suc i) cs = Some (idx, g, j)" by simp
    from Cons.IH[OF this] show ?thesis by simp
  next
    case (Some a)
    obtain g' n where a: "a = (g', n)" by (cases a)
    from match_here_bound[of "c # cs" g' n] Some a have "0 < n \<and> n \<le> length (c # cs)" by simp
    with Cons.prems Some a show ?thesis by auto
  qed
qed

lemma exec_bound:
  "exec text lastIndex = Some (idx, g, j) \<Longrightarrow>
     lastIndex \<le> idx \<and> idx < j \<and> j \<le> length text \<and> idx < length text"
  by (auto simp: exec_def split: if_splits dest!: search_bound)

termination scan_loop
proof (relation "measure (\<lambda>(t, lastIndex, s). Suc (length t) - lastIndex)", goal_cases)
  case 1
  then show ?case by simp
next
  case (2 t lastIndex s x2 idx y g j)
  then have "exec t lastIndex = Some (idx, g, j)" by simp
  from exec_bound[OF this] show ?case by (simp, arith)
qed

declare scan_loop.simps [simp del]

definition applyEmbeddedOverrides ::
  "string \<Rightarrow> nat \<Rightarrow> ruleset \<Rightarrow> allow_table \<Rightarrow> ignore_ranges
     \<Rightarrow> ruleset \<times> allow_table \<times> ignore_ranges" where
  "applyEmbeddedOverrides text lastIndex ruleset allow ignore =
     (let s = scan_loop text lastIndex
                \<lparr>s_ruleset = ruleset, s_allow = allow, s_ignore = ignore,
                 s_ignoreStart = None, s_ignoreEnd = None, s_lineno = 0, s_eol = -1\<rparr>
      in (s_ruleset s, s_allow s,
          if truthy (s_ignoreStart s)
          then s_ignore s @ [(num_of (s_ignoreStart s), s_lineno s)]
          else s_ignore s))"

text \<open>The probe of \<^verbatim>\<open>verify\<close>, whose value \<^verbatim>\<open>emi\<close> becomes the \<^verbatim>\<open>lastIndex\<close> of
  \<^verbatim>\<open>rxEmbedded\<close>:
  \<^verbatim>\<open>text.lastIndexOf('/*', text.indexOf('csslint', text.indexOf('/*') + 1 || text.length) + 1)\<close>\<close>

definition probe :: "string \<Rightarrow> int" where
  "probe text =
     lastIndexOf text ''/*''
       (indexOf text ''csslint''
          (if indexOf text ''/*'' 0 + 1 \<noteq> 0 then indexOf text ''/*'' 0 + 1
           else int (length text)) + 1)"

section \<open>Sorting and post-processing the messages\<close>

text \<open>
  The comparator
  \<^verbatim>\<open>(a, b) => !!a.rollup - !!b.rollup || a.line - b.line || a.col - b.col\<close>
  works on numbers; a subtraction with an undefined operand is \<^verbatim>\<open>NaN\<close>, here \<open>None\<close>,
  which is falsy like 0.
\<close>

definition js_minus :: "int option \<Rightarrow> int option \<Rightarrow> int option" where
  "js_minus a b = (case a of None \<Rightarrow> None | Some x \<Rightarrow> (case b of None \<Rightarrow> None | Some y \<Rightarrow> Some (x - y)))"

definition js_or :: "int option \<Rightarrow> int option \<Rightarrow> int option" where
  "js_or a b = (if truthy a then a else b)"

definition compare_messages :: "message \<Rightarrow> message \<Rightarrow> int option" where
  "compare_messages a b =
     js_or (js_or (Some (of_bool (m_rollup a) - of_bool (m_rollup b)))
                  (js_minus (m_line a) (m_line b)))
           (js_minus (m_col a) (m_col b))"

text \<open>\<^verbatim>\<open>Array.prototype.sort\<close> reads a comparator result of \<^verbatim>\<open>NaN\<close> as 0 and is stable:
  elements that compare equal keep their order. It is modelled by the stable insertion
  sort with the same comparator.\<close>

definition sort_compare :: "message \<Rightarrow> message \<Rightarrow> int" where
  "sort_compare a b = (case compare_messages a b of None \<Rightarrow> 0 | Some v \<Rightarrow> v)"

fun insert_sorted :: "message \<Rightarrow> message list \<Rightarrow> message list" where
  "insert_sorted x [] = [x]"
| "insert_sorted x (y # ys) =
     (if sort_compare x y \<le> 0 then x # y # ys else y # insert_sorted x ys)"

definition sort_messages :: "message list \<Rightarrow> message list" where
  "sort_messages ms = foldr insert_sorted ms []"

text \<open>
  \<^verbatim>\<open>rxGrammarAbbr = /([-<])(int|len|num|pct|rel-(\w{3}))(?=\W)/g\<close>

  \<open>abbr_at s\<close> matches the second group and the lookahead at the head of \<open>s\<close>, the code
  units after a \<^verbatim>\<open>-\<close> or \<^verbatim>\<open><\<close>; the lookahead needs a code unit to be there.
\<close>

definition ABBR_MAP :: "string \<Rightarrow> string option" where
  "ABBR_MAP =
     map_of [(''int'', ''integer''), (''len'', ''length''), (''num'', ''number''),
             (''pct'', ''percentage''),
             (''rel-hsl'', ''h-s-l-alpha-none''), (''rel-hwb'', ''h-w-b-alpha-none''),
             (''rel-lab'', ''l-a-b-alpha-none''), (''rel-lch'', ''l-c-h-alpha-none''),
             (''rel-rgb'', ''r-g-b-alpha-none'')]"

definition not_word_next :: "string \<Rightarrow> bool" where
  "not_word_next s = (case s of [] \<Rightarrow> False | c # _ \<Rightarrow> \<not> is_word c)"

definition abbr_at :: "string \<Rightarrow> string option" where
  "abbr_at s =
     (if take 3 s \<in> set [''int'', ''len'', ''num'', ''pct''] \<and> not_word_next (drop 3 s)
      then Some (take 3 s)
      else if take 4 s = ''rel-'' \<and> length (take 3 (drop 4 s)) = 3
              \<and> list_all is_word (take 3 (drop 4 s)) \<and> not_word_next (drop 7 s)
      then Some (take 7 s)
      else None)"

text \<open>\<^verbatim>\<open>unabbreviate = (_, c, str) => c + (ABBR_MAP[str]) || str\<close>: the sum binds tighter
  than \<^verbatim>\<open>||\<close>, and a key the map lacks is printed as \<^verbatim>\<open>undefined\<close>.\<close>

definition unabbreviate :: "char \<Rightarrow> string \<Rightarrow> string" where
  "unabbreviate c str =
     (let r = c # (case ABBR_MAP str of None \<Rightarrow> ''undefined'' | Some v \<Rightarrow> v)
      in if r \<noteq> [] then r else str)"

text \<open>\<^verbatim>\<open>message.replace(rxGrammarAbbr, unabbreviate)\<close>: with the \<^verbatim>\<open>g\<close> flag, \<^verbatim>\<open>replace\<close>
  starts at index 0 and replaces every match, left to right.\<close>

fun replace_abbr :: "string \<Rightarrow> string" where
  "replace_abbr [] = []"
| "replace_abbr (c # cs) =
     (if c = CHR ''-'' \<or> c = CHR ''<'' then
        (case abbr_at cs of
           Some str \<Rightarrow> unabbreviate c str @ replace_abbr (drop (length str) cs)
         | None \<Rightarrow> c # replace_abbr cs)
      else c # replace_abbr cs)"

definition postprocess :: "message \<Rightarrow> message" where
  "postprocess m =
     (if 0 \<le> indexOf (m_message m) ''<'' 0
      then m\<lparr>m_message := replace_abbr (m_message m)\<rparr> else m)"

section \<open>Parser events and rules\<close>

text \<open>
  The parser is not part of these sources. What a rule sees of it is the sequence of
  events its listeners are called with; the events the rules below listen to carry the
  fields those rules read, and every other event is \<open>OtherEvent\<close> with its name.
\<close>

record property_token =
  pt_text :: string
  pt_lowText :: "string option"
  pt_vendorPos :: nat

datatype event =
    Property property_token string bool position
  | StartFontface
  | EndStylesheet
  | ParseError string position
  | OtherEvent string

text \<open>\<^verbatim>\<open>CSSLint.Util.getPropName\<close>; the write to \<^verbatim>\<open>prop.lowText\<close> caches the value it
  would compute again.\<close>

definition getPropName :: "property_token \<Rightarrow> string" where
  "getPropName prop =
     (let low = (case pt_lowText prop of
                   None \<Rightarrow> toLowerCase (pt_text prop)
                 | Some l \<Rightarrow> if l \<noteq> [] then l else toLowerCase (pt_text prop));
          vp = pt_vendorPos prop
      in if vp \<noteq> 0 then drop vp low else low)"

text \<open>
  A rule writes through the Reporter only: a listener's effect is the list of Reporter
  methods it calls, each with the rule's own object as \<^verbatim>\<open>rule\<close>, and the new value of
  the variables its closure holds. \<open>init\<close> is the value of those variables when
  \<^verbatim>\<open>rule.init\<close> has attached the listeners.
\<close>

datatype rcall =
    CallError string position
  | CallReport string position
  | CallInfo string position
  | CallRollupError string
  | CallRollupWarn string
  | CallStat string nat

record 's rule =
  init :: 's
  listener :: "'s \<Rightarrow> event \<Rightarrow> rcall list \<times> 's"

definition errors_rule :: "nat rule" where
  "errors_rule =
     \<lparr>init = 0,
      listener = (\<lambda>st e. case e of
          ParseError msg pos \<Rightarrow> ([CallError msg pos], st)
        | _ \<Rightarrow> ([], st))\<rparr>"

definition floats_message :: "nat \<Rightarrow> string" where
  "floats_message count =
     ''Too many floats ('' @ show_nat count @ ''), you'' @ [CHR 0x27] @
     ''re probably using them for layout. Consider using a grid system instead.''"

definition floats_rule :: "nat rule" where
  "floats_rule =
     \<lparr>init = 0,
      listener = (\<lambda>count e. case e of
          Property property val important pos \<Rightarrow>
            ([], count + of_bool (getPropName property = ''float''
                                   \<and> toLowerCase val \<noteq> ''none''))
        | EndStylesheet \<Rightarrow>
            (CallStat ''floats'' count #
               (if 10 \<le> count then [CallRollupWarn (floats_message count)] else []),
             count)
        | _ \<Rightarrow> ([], count))\<rparr>"

definition font_faces_rule :: "nat rule" where
  "font_faces_rule =
     \<lparr>init = 0,
      listener = (\<lambda>count e. case e of
          StartFontface \<Rightarrow> ([], count + 1)
        | EndStylesheet \<Rightarrow>
            (if 5 < count
             then [CallRollupWarn (''Too many @font-face declarations ('' @ show_nat count @ '').'')]
             else [],
             count)
        | _ \<Rightarrow> ([], count))\<rparr>"

definition font_sizes_rule :: "nat rule" where
  "font_sizes_rule =
     \<lparr>init = 0,
      listener = (\<lambda>count e. case e of
          Property property val important pos \<Rightarrow>
            ([], count + of_bool (getPropName property = ''font-size''))
        | EndStylesheet \<Rightarrow>
            (CallStat ''font-sizes'' count #
               (if 10 \<le> count
                then [CallRollupWarn (''Too many font-size declarations ('' @ show_nat count
                                       @ ''), abstraction needed.'')]
                else []),
             count)
        | _ \<Rightarrow> ([], count))\<rparr>"

definition important_rule :: "nat rule" where
  "important_rule =
     \<lparr>init = 0,
      listener = (\<lambda>count e. case e of
          Property property val important pos \<Rightarrow>
            (if important then ([CallReport ''!important.'' pos], count + 1) else ([], count))
        | EndStylesheet \<Rightarrow>
            (CallStat ''important'' count #
               (if 10 \<le> count
                then [CallRollupWarn (''Too many !important declarations ('' @ show_nat count
                        @ ''), try to use less than 10 to avoid specificity issues.'')]
                else []),
             count)
        | _ \<Rightarrow> ([], count))\<rparr>"

text \<open>The registry \<^verbatim>\<open>rules\<close>, in the order \<^verbatim>\<open>addRule\<close> fills it, with the rules modelled
  here. \<^verbatim>\<open>verify\<close> below takes the registry as a parameter.\<close>

definition catalog :: "(string \<times> nat rule) list" where
  "catalog =
     [(''errors'', errors_rule), (''floats'', floats_rule), (''font-faces'', font_faces_rule),
      (''font-sizes'', font_sizes_rule), (''important'', important_rule)]"

section \<open>The verification engine\<close>

text \<open>One call of a listener on the Reporter, for the rule with id \<open>rid\<close>.\<close>

fun apply_call :: "store \<Rightarrow> string \<Rightarrow> reporter \<Rightarrow> rcall \<Rightarrow> reporter" where
  "apply_call h rid r (CallError msg pos) = error r msg pos (Some rid)"
| "apply_call h rid r (CallReport msg pos) = report h r msg pos rid"
| "apply_call h rid r (CallInfo msg pos) = info r msg pos (Some rid)"
| "apply_call h rid r (CallRollupError msg) = rollupError r msg (Some rid)"
| "apply_call h rid r (CallRollupWarn msg) = rollupWarn r msg (Some rid)"
| "apply_call h rid r (CallStat name v) = stat r name v"

text \<open>The listeners a call of \<^verbatim>\<open>verify\<close> has attached: the rule's id, the rule, and the
  current value of its closure's variables, in the order of the \<^verbatim>\<open>init\<close> calls. The
  parser calls the listeners of an event in that order.\<close>

type_synonym 's attached = "string \<times> 's rule \<times> 's"

fun fire :: "store \<Rightarrow> event \<Rightarrow> 's attached list \<Rightarrow> reporter \<Rightarrow> 's attached list \<times> reporter" where
  "fire h e [] r = ([], r)"
| "fire h e ((rid, rule, st) # ls) r =
     (case listener rule st e of
        (calls, st') \<Rightarrow>
          (case fire h e ls (foldl (apply_call h rid) r calls) of
             (ls', r') \<Rightarrow> ((rid, rule, st') # ls', r')))"

fun dispatch :: "store \<Rightarrow> event list \<Rightarrow> 's attached list \<Rightarrow> reporter \<Rightarrow> reporter" where
  "dispatch h [] ls r = r"
| "dispatch h (e # es) ls r =
     (case fire h e ls r of (ls', r') \<Rightarrow> dispatch h es ls' r')"

text \<open>
  What \<^verbatim>\<open>parser.parse(text, {reuseCache})\<close> does in one call of \<^verbatim>\<open>verify\<close>: the events
  it fires, in order, and the exception that ends it, if any, as its \<^verbatim>\<open>stack\<close> and the
  position fields read from it. The cache hint \<^verbatim>\<open>reuseCache\<close> is an input of the parser
  only, so it has no part in the model.
\<close>

record parser_run =
  pr_events :: "event list"
  pr_fatal :: "(string \<times> position) option"

text \<open>\<^verbatim>\<open>getRuleSet\<close>: every registered rule at level 1.\<close>

definition getRuleSet :: "(string \<times> 's rule) list \<Rightarrow> ruleset" where
  "getRuleSet rules = foldl (\<lambda>ruleset rid. obj_set rid 1 ruleset) [] (map fst rules)"

text \<open>The first part of \<^verbatim>\<open>verify\<close>: the ruleset object the call works on, and the
  allow table and ignore ranges. \<open>arg\<close> is the caller's ruleset, \<open>None\<close> when the
  argument is left out; \<^verbatim>\<open>Object.assign({}, ruleset)\<close> allocates the clone.\<close>

definition resolve_ruleset ::
  "(string \<times> 's rule) list \<Rightarrow> store \<Rightarrow> string \<Rightarrow> ref option
     \<Rightarrow> ref \<times> allow_table \<times> ignore_ranges \<times> store" where
  "resolve_ruleset rules h text arg =
     (case (case arg of None \<Rightarrow> alloc h (getRuleSet rules) | Some a \<Rightarrow> (a, h)) of
        (ruleset, h0) \<Rightarrow>
          if 0 \<le> probe text then
            (case alloc h0 (h0 ! ruleset) of
               (clone, h1) \<Rightarrow>
                 (case applyEmbeddedOverrides text (nat (probe text)) (h1 ! clone) [] [] of
                    (rs, allow, ignore) \<Rightarrow> (clone, allow, ignore, h1[clone := rs])))
          else (ruleset, [], [], h0))"

text \<open>The loop over \<^verbatim>\<open>Object.entries(ruleset)\<close>: \<^verbatim>\<open>init\<close> is called for an entry when its
  mode is truthy and the registry has a rule for its id.\<close>

definition attach :: "(string \<times> 's rule) list \<Rightarrow> ruleset \<Rightarrow> 's attached list" where
  "attach rules ruleset =
     List.map_filter
       (\<lambda>(rid, mode).
          if mode \<noteq> 0 then
            (case obj_get rules rid of
               None \<Rightarrow> None
             | Some rule \<Rightarrow> Some (rid, rule, init rule))
          else None)
       ruleset"

text \<open>\<^verbatim>\<open>verify\<close> up to the end of the \<^verbatim>\<open>try\<close> statement: the Reporter, the store, and
  the reference of the ruleset the call worked on.\<close>

definition verify_reporter ::
  "(string \<times> 's rule) list \<Rightarrow> parser_run \<Rightarrow> store \<Rightarrow> string \<Rightarrow> ref option
     \<Rightarrow> reporter \<times> store \<times> ref" where
  "verify_reporter rules run h text arg =
     (case resolve_ruleset rules h text arg of
        (ruleset, allow, ignore, h1) \<Rightarrow>
          let reporter = new_Reporter [] ruleset allow ignore;
              h2 = h1[ruleset := obj_set ''errors'' 2 (h1 ! ruleset)];
              r1 = dispatch h2 (pr_events run) (attach rules (h2 ! ruleset)) reporter;
              r2 = (case pr_fatal run of
                      None \<Rightarrow> r1
                    | Some (stack, ex) \<Rightarrow>
                        error r1 (''Fatal error, cannot continue!'' @ [CHR 0x0A] @ stack) ex None)
          in (r2, h2, ruleset))"

text \<open>The values a field of the returned object can hold.\<close>

datatype js_value = MessageArray "message list" | StatsObject "(string \<times> nat) list"

type_synonym js_object = "(string \<times> js_value) list"

text \<open>Modelled from the spec: \<^verbatim>\<open>parserlib.util.cache.feedback\<close> belongs to the parser
  collaborator, which these sources do not contain. By section 4.3 \<^verbatim>\<open>verify\<close> returns the
  sorted and post-processed messages, so the call leaves the report as it is.\<close>

definition feedback :: "js_object \<Rightarrow> js_object" where
  "feedback obj = obj"

definition verify ::
  "(string \<times> 's rule) list \<Rightarrow> parser_run \<Rightarrow> store \<Rightarrow> string \<Rightarrow> ref option
     \<Rightarrow> js_object \<times> store" where
  "verify rules run h text arg =
     (case verify_reporter rules run h text arg of
        (reporter, h', ruleset) \<Rightarrow>
          (feedback
             [(''messages'', MessageArray (map postprocess (sort_messages (r_messages reporter))))],
           h'))"

text \<open>The messages of a returned report.\<close>

definition messages_of :: "js_object \<Rightarrow> message list" where
  "messages_of obj = (case obj_get obj ''messages'' of Some (MessageArray ms) \<Rightarrow> ms | _ \<Rightarrow> [])"

section \<open>Notions for the proofs\<close>

text \<open>The messages one Reporter call appends. They depend on the Reporter's lines, ruleset
  reference, allow table and ignore ranges only, which no call changes.\<close>

definition one_call :: "store \<Rightarrow> reporter \<Rightarrow> string \<Rightarrow> rcall \<Rightarrow> message list" where
  "one_call h r rid c = r_messages (apply_call h rid (r\<lparr>r_messages := [], r_stats := []\<rparr>) c)"

definition same_config :: "reporter \<Rightarrow> reporter \<Rightarrow> bool" where
  "same_config r r' =
     (r_lines r = r_lines r' \<and> r_ruleset r = r_ruleset r' \<and> r_allow r = r_allow r'
      \<and> r_ignore r = r_ignore r')"

text \<open>The Reporter calls a rule makes over a sequence of events, and the value of its
  closure variables after them.\<close>

fun all_calls :: "'s rule \<Rightarrow> 's \<Rightarrow> event list \<Rightarrow> rcall list" where
  "all_calls rule st [] = []"
| "all_calls rule st (e # es) =
     fst (listener rule st e) @ all_calls rule (snd (listener rule st e)) es"

fun final_state :: "'s rule \<Rightarrow> 's \<Rightarrow> event list \<Rightarrow> 's" where
  "final_state rule st [] = st"
| "final_state rule st (e # es) = final_state rule (snd (listener rule st e)) es"

text \<open>A message that a call of one of the rules in \<open>S\<close> appends.\<close>

definition from_rules :: "store \<Rightarrow> reporter \<Rightarrow> (string \<times> 's rule) set \<Rightarrow> message \<Rightarrow> bool" where
  "from_rules h r S m =
     (\<exists>rid rule st e c. (rid, rule) \<in> S \<and> c \<in> set (fst (listener rule st e))
        \<and> m \<in> set (one_call h r rid c))"

definition rules_of :: "'s attached list \<Rightarrow> (string \<times> 's rule) set" where
  "rules_of ls = set (map (\<lambda>(rid, rule, st). (rid, rule)) ls)"

text \<open>The messages of one rule.\<close>

definition by_rule :: "string \<Rightarrow> message list \<Rightarrow> message list" where
  "by_rule rid ms = filter (\<lambda>m. m_rule m = Some rid) ms"

text \<open>A message as a Reporter method makes it: a rollup has neither line nor column, any
  other message has both.\<close>

definition well_formed :: "message \<Rightarrow> bool" where
  "well_formed m =
     (if m_rollup m then m_line m = None \<and> m_col m = None
      else m_line m \<noteq> None \<and> m_col m \<noteq> None)"

text \<open>The order \<^verbatim>\<open>sort\<close> sees.\<close>

definition before :: "message \<Rightarrow> message \<Rightarrow> bool" where
  "before a b = (sort_compare a b \<le> 0)"

text \<open>The message of the \<^verbatim>\<open>catch\<close> clause.\<close>

definition fatal_message :: "reporter \<Rightarrow> string \<Rightarrow> position \<Rightarrow> message" where
  "fatal_message r stack ex =
     positional Error r (''Fatal error, cannot continue!'' @ [CHR 0x0A] @ stack) ex None"

text \<open>Ascending by line, then by column.\<close>

definition line_then_col :: "message \<Rightarrow> message \<Rightarrow> bool" where
  "line_then_col a b =
     (\<exists>la ca lb cb. m_line a = Some la \<and> m_col a = Some ca \<and> m_line b = Some lb
        \<and> m_col b = Some cb \<and> (la < lb \<or> (la = lb \<and> ca \<le> cb)))"


text \<open>A property event that the \<^verbatim>\<open>floats\<close> rule counts: a \<^verbatim>\<open>float\<close> property whose value is
  not \<^verbatim>\<open>none\<close>.\<close>

definition float_not_none :: "event \<Rightarrow> bool" where
  "float_not_none e =
     (case e of
        Property property val important pos \<Rightarrow>
          getPropName property = ''float'' \<and> toLowerCase val \<noteq> ''none''
      | _ \<Rightarrow> False)"

text \<open>A text without \<^verbatim>\<open>-\<close> and \<^verbatim>\<open><\<close>, the two characters a match of \<^verbatim>\<open>rxGrammarAbbr\<close> can
  start with.\<close>

definition plain :: "string \<Rightarrow> bool" where
  "plain s = (CHR ''-'' \<notin> set s \<and> CHR ''<'' \<notin> set s)"

text \<open>A text in which \<^verbatim>\<open>rxGrammarAbbr\<close> matches at no index.\<close>

fun no_abbr :: "string \<Rightarrow> bool" where
  "no_abbr [] = True"
| "no_abbr (c # cs) =
     (\<not> ((c = CHR ''-'' \<or> c = CHR ''<'') \<and> abbr_at cs \<noteq> None) \<and> no_abbr cs)"

section \<open>Where the messages come from\<close>

lemma rules_of_Nil [simp]: "rules_of [] = {}"
  by (simp add: rules_of_def)

lemma rules_of_Cons [simp]: "rules_of ((rid, rule, st) # ls) = insert (rid, rule) (rules_of ls)"
  by (simp add: rules_of_def)

lemma same_config_refl [simp]: "same_config r r"
  by (simp add: same_config_def)

lemma same_config_trans: "same_config r r' \<Longrightarrow> same_config r' r'' \<Longrightarrow> same_config r r''"
  by (simp add: same_config_def)

lemma apply_call_config: "same_config r (apply_call h rid r c)"
  by (cases c)
     (simp_all add: same_config_def error_def report_def info_def rollupError_def rollupWarn_def
       stat_def push_def)

lemma one_call_config: "same_config r r' \<Longrightarrow> one_call h r rid c = one_call h r' rid c"
  by (cases c)
     (simp_all add: one_call_def same_config_def error_def report_def info_def rollupError_def
       rollupWarn_def stat_def push_def positional_def allowed_def ignored_def level_of_def)

lemma apply_call_messages:
  "r_messages (apply_call h rid r c) = r_messages r @ one_call h r rid c"
  by (cases c)
     (simp_all add: one_call_def error_def report_def info_def rollupError_def
       rollupWarn_def stat_def push_def positional_def allowed_def ignored_def level_of_def)

lemma one_call_rule: "m \<in> set (one_call h r rid c) \<Longrightarrow> m_rule m = Some rid"
  by (cases c)
     (auto simp: one_call_def error_def report_def info_def rollupError_def rollupWarn_def
       stat_def push_def positional_def rollup_message_def split: if_splits)

lemma from_rules_config:
  "same_config r r' \<Longrightarrow> from_rules h r' S m \<Longrightarrow> from_rules h r S m"
  unfolding from_rules_def using one_call_config by metis

lemma from_rules_mono:
  "S \<subseteq> S' \<Longrightarrow> from_rules h r S m \<Longrightarrow> from_rules h r S' m"
  unfolding from_rules_def by blast

lemma from_rules_rule: "from_rules h r S m \<Longrightarrow> \<exists>rid rule. (rid, rule) \<in> S \<and> m_rule m = Some rid"
  unfolding from_rules_def using one_call_rule by blast

lemma foldl_apply_call:
  "same_config r (foldl (apply_call h rid) r calls)
   \<and> r_messages (foldl (apply_call h rid) r calls)
       = r_messages r @ concat (map (one_call h r rid) calls)"
proof (induction calls arbitrary: r)
  case Nil
  then show ?case by simp
next
  case (Cons c calls)
  let ?r1 = "apply_call h rid r c"
  have cfg: "same_config r ?r1" by (rule apply_call_config)
  have eq: "map (one_call h ?r1 rid) calls = map (one_call h r rid) calls"
    using one_call_config[OF cfg] by simp
  from Cons[of ?r1] cfg eq show ?case
    using same_config_trans by (auto simp: apply_call_messages)
qed

lemma fire_messages:
  "fire h e ls r = (ls', r') \<Longrightarrow>
     map fst ls' = map fst ls \<and> rules_of ls' = rules_of ls \<and> same_config r r'
     \<and> (\<exists>new. r_messages r' = r_messages r @ new
           \<and> (\<forall>m \<in> set new. from_rules h r (rules_of ls) m))"
proof (induction ls arbitrary: r ls' r')
  case Nil
  then show ?case by simp
next
  case (Cons a ls)
  obtain rid rule st where a: "a = (rid, rule, st)" by (cases a)
  obtain calls st' where l: "listener rule st e = (calls, st')" by (cases "listener rule st e")
  let ?r1 = "foldl (apply_call h rid) r calls"
  obtain ls1 r1 where f: "fire h e ls ?r1 = (ls1, r1)" by (cases "fire h e ls ?r1")
  from Cons.prems a l f have res: "ls' = (rid, rule, st') # ls1" "r' = r1" by auto
  from foldl_apply_call[of r h rid calls] have
    c0: "same_config r ?r1"
    and m0: "r_messages ?r1 = r_messages r @ concat (map (one_call h r rid) calls)" by auto
  from Cons.IH[OF f] obtain new1 where
    i1: "map fst ls1 = map fst ls" and s1: "rules_of ls1 = rules_of ls"
    and c1: "same_config ?r1 r1"
    and m1: "r_messages r1 = r_messages ?r1 @ new1"
    and o1: "\<forall>m \<in> set new1. from_rules h ?r1 (rules_of ls) m" by blast
  have sub: "rules_of ls \<subseteq> rules_of (a # ls)" using a by auto
  have hd: "(rid, rule) \<in> rules_of (a # ls)" using a by simp
  have o1': "\<forall>m \<in> set new1. from_rules h r (rules_of (a # ls)) m"
  proof
    fix m assume "m \<in> set new1"
    with o1 have "from_rules h ?r1 (rules_of ls) m" by blast
    then have "from_rules h r (rules_of ls) m" by (rule from_rules_config[OF c0])
    then show "from_rules h r (rules_of (a # ls)) m" by (rule from_rules_mono[OF sub])
  qed
  have o0': "\<forall>m \<in> set (concat (map (one_call h r rid) calls)). from_rules h r (rules_of (a # ls)) m"
  proof
    fix m assume "m \<in> set (concat (map (one_call h r rid) calls))"
    then obtain c where "c \<in> set calls" "m \<in> set (one_call h r rid c)" by auto
    with l hd show "from_rules h r (rules_of (a # ls)) m"
      unfolding from_rules_def by (metis fst_conv)
  qed
  have "r_messages r' = r_messages r @ (concat (map (one_call h r rid) calls) @ new1)"
    using res m0 m1 by simp
  moreover have "\<forall>m \<in> set (concat (map (one_call h r rid) calls) @ new1).
       from_rules h r (rules_of (a # ls)) m"
    using o0' o1' by auto
  moreover have "map fst ls' = map fst (a # ls)" using res i1 a by simp
  moreover have "rules_of ls' = rules_of (a # ls)" using res s1 a by simp
  moreover have "same_config r r'" using c0 c1 res same_config_trans by blast
  ultimately show ?case by blast
qed

lemma dispatch_messages:
  "same_config r (dispatch h es ls r)
   \<and> (\<exists>new. r_messages (dispatch h es ls r) = r_messages r @ new
         \<and> (\<forall>m \<in> set new. from_rules h r (rules_of ls) m))"
proof (induction es arbitrary: ls r)
  case Nil
  then show ?case by simp
next
  case (Cons e es)
  obtain ls1 r1 where f: "fire h e ls r = (ls1, r1)" by (cases "fire h e ls r")
  from fire_messages[OF f] obtain new0 where
    s0: "rules_of ls1 = rules_of ls" and c0: "same_config r r1"
    and m0: "r_messages r1 = r_messages r @ new0"
    and o0: "\<forall>m \<in> set new0. from_rules h r (rules_of ls) m" by blast
  from Cons[of r1 ls1] obtain new1 where
    c1: "same_config r1 (dispatch h es ls1 r1)"
    and m1: "r_messages (dispatch h es ls1 r1) = r_messages r1 @ new1"
    and o1: "\<forall>m \<in> set new1. from_rules h r1 (rules_of ls1) m" by blast
  have o1': "\<forall>m \<in> set new1. from_rules h r (rules_of ls) m"
  proof
    fix m assume "m \<in> set new1"
    with o1 have "from_rules h r1 (rules_of ls1) m" by blast
    then have "from_rules h r (rules_of ls1) m" by (rule from_rules_config[OF c0])
    then show "from_rules h r (rules_of ls) m" by (simp only: s0)
  qed
  have "r_messages (dispatch h (e # es) ls r) = r_messages r @ (new0 @ new1)"
    using f m0 m1 by simp
  moreover have "\<forall>m \<in> set (new0 @ new1). from_rules h r (rules_of ls) m"
    using o0 o1' by auto
  moreover have "same_config r (dispatch h (e # es) ls r)"
    using f c0 c1 same_config_trans by auto
  ultimately show ?case by blast
qed

lemma by_rule_append [simp]: "by_rule rid (xs @ ys) = by_rule rid xs @ by_rule rid ys"
  by (simp add: by_rule_def)

lemma by_rule_one_calls [simp]:
  "by_rule rid (concat (map (one_call h r rid) calls)) = concat (map (one_call h r rid) calls)"
  unfolding by_rule_def using one_call_rule by (intro filter_True) auto

lemma by_rule_other_calls:
  "rid' \<noteq> rid \<Longrightarrow> by_rule rid (concat (map (one_call h r rid') calls)) = []"
  unfolding by_rule_def using one_call_rule by (auto simp: filter_empty_conv)

lemma by_rule_from_rules:
  assumes "\<forall>m \<in> set new. from_rules h r S m" "rid \<notin> fst ` S"
  shows "by_rule rid new = []"
proof -
  have "\<forall>m \<in> set new. m_rule m \<noteq> Some rid"
  proof
    fix m assume "m \<in> set new"
    with assms(1) have "from_rules h r S m" by blast
    from from_rules_rule[OF this] obtain rid' rule where "(rid', rule) \<in> S" "m_rule m = Some rid'"
      by blast
    with assms(2) show "m_rule m \<noteq> Some rid" by force
  qed
  then show ?thesis by (simp add: by_rule_def filter_empty_conv)
qed

lemma fst_rules_of: "fst ` rules_of ls = set (map fst ls)"
  by (force simp: rules_of_def)

lemma fire_rule:
  "distinct (map fst ls) \<Longrightarrow> (rid, rule, st) \<in> set ls \<Longrightarrow> fire h e ls r = (ls', r') \<Longrightarrow>
     (rid, rule, snd (listener rule st e)) \<in> set ls'
     \<and> by_rule rid (r_messages r')
         = by_rule rid (r_messages r) @ concat (map (one_call h r rid) (fst (listener rule st e)))"
proof (induction ls arbitrary: r ls' r')
  case Nil
  then show ?case by simp
next
  case (Cons a ls)
  obtain rid' rule' st' where a: "a = (rid', rule', st')" by (cases a)
  obtain calls st'' where l: "listener rule' st' e = (calls, st'')"
    by (cases "listener rule' st' e")
  let ?r1 = "foldl (apply_call h rid') r calls"
  obtain ls1 r1 where f: "fire h e ls ?r1 = (ls1, r1)" by (cases "fire h e ls ?r1")
  from Cons.prems a l f have res: "ls' = (rid', rule', st'') # ls1" "r' = r1" by auto
  from foldl_apply_call[of r h rid' calls] have
    c0: "same_config r ?r1"
    and m0: "r_messages ?r1 = r_messages r @ concat (map (one_call h r rid') calls)" by auto
  show ?case
  proof (cases "rid' = rid")
    case True
    with Cons.prems(1,2) a have same: "rule' = rule" "st' = st" and notin: "rid \<notin> set (map fst ls)"
      by force+
    from fire_messages[OF f] obtain new1 where
      m1: "r_messages r1 = r_messages ?r1 @ new1"
      and o1: "\<forall>m \<in> set new1. from_rules h ?r1 (rules_of ls) m" by blast
    have "by_rule rid new1 = []"
      using by_rule_from_rules[OF o1] notin by (simp add: fst_rules_of)
    with res m0 m1 True same l show ?thesis by simp
  next
    case False
    with Cons.prems a have d: "distinct (map fst ls)" and mem: "(rid, rule, st) \<in> set ls" by auto
    from Cons.IH[OF d mem f] have
      i1: "(rid, rule, snd (listener rule st e)) \<in> set ls1"
      and i2: "by_rule rid (r_messages r1)
         = by_rule rid (r_messages ?r1) @ concat (map (one_call h ?r1 rid) (fst (listener rule st e)))"
      by auto
    have eq: "map (one_call h ?r1 rid) (fst (listener rule st e))
            = map (one_call h r rid) (fst (listener rule st e))"
      using one_call_config[OF c0] by simp
    from i1 i2 res m0 eq by_rule_other_calls[OF False, of h r calls] show ?thesis by simp
  qed
qed

lemma dispatch_rule:
  "distinct (map fst ls) \<Longrightarrow> (rid, rule, st) \<in> set ls \<Longrightarrow>
     by_rule rid (r_messages (dispatch h es ls r))
       = by_rule rid (r_messages r) @ concat (map (one_call h r rid) (all_calls rule st es))"
proof (induction es arbitrary: ls r st)
  case Nil
  then show ?case by simp
next
  case (Cons e es)
  obtain ls1 r1 where f: "fire h e ls r = (ls1, r1)" by (cases "fire h e ls r")
  from fire_messages[OF f] have i0: "map fst ls1 = map fst ls" and c0: "same_config r r1" by auto
  from fire_rule[OF Cons.prems f] have
    mem: "(rid, rule, snd (listener rule st e)) \<in> set ls1"
    and m0: "by_rule rid (r_messages r1)
         = by_rule rid (r_messages r) @ concat (map (one_call h r rid) (fst (listener rule st e)))"
    by auto
  have d: "distinct (map fst ls1)" using Cons.prems(1) i0 by simp
  have eq: "map (one_call h r1 rid) cs = map (one_call h r rid) cs" for cs
    using one_call_config[OF c0] by simp
  from Cons.IH[OF d mem, of r1] f m0 eq show ?case by simp
qed

section \<open>The sort\<close>

lemma sort_compare_wf:
  "well_formed a \<Longrightarrow> well_formed b \<Longrightarrow>
     sort_compare a b =
       (if m_rollup a \<and> m_rollup b then 0
        else if m_rollup a then 1
        else if m_rollup b then -1
        else if num_of (m_line a) \<noteq> num_of (m_line b) then num_of (m_line a) - num_of (m_line b)
        else num_of (m_col a) - num_of (m_col b))"
  by (auto simp: well_formed_def sort_compare_def compare_messages_def js_or_def js_minus_def
      truthy_def num_of_def split: if_splits option.splits)

lemma before_total: "well_formed a \<Longrightarrow> well_formed b \<Longrightarrow> before a b \<or> before b a"
  by (auto simp: before_def sort_compare_wf)

lemma before_trans:
  "well_formed a \<Longrightarrow> well_formed b \<Longrightarrow> well_formed c \<Longrightarrow>
     before a b \<Longrightarrow> before b c \<Longrightarrow> before a c"
  by (auto simp: before_def sort_compare_wf split: if_splits)

lemma set_insert_sorted: "set (insert_sorted x ys) = insert x (set ys)"
  by (induction ys) auto

lemma set_sort_messages: "set (sort_messages ms) = set ms"
  by (induction ms) (auto simp: sort_messages_def set_insert_sorted)

lemma sorted_insert_sorted:
  "well_formed x \<Longrightarrow> \<forall>y \<in> set ys. well_formed y \<Longrightarrow> sorted_wrt before ys
     \<Longrightarrow> sorted_wrt before (insert_sorted x ys)"
proof (induction ys)
  case Nil
  then show ?case by simp
next
  case (Cons y ys)
  show ?case
  proof (cases "sort_compare x y \<le> 0")
    case True
    then have xy: "before x y" by (simp add: before_def)
    have "\<forall>z \<in> set ys. before x z"
    proof
      fix z assume z: "z \<in> set ys"
      with Cons.prems have "before y z" by simp
      with xy Cons.prems z show "before x z" using before_trans[of x y z] by simp
    qed
    with True xy Cons.prems show ?thesis by simp
  next
    case False
    then have "before y x" using before_total[of x y] Cons.prems by (auto simp: before_def)
    with False Cons show ?thesis by (auto simp: set_insert_sorted)
  qed
qed

lemma sorted_sort_messages:
  "\<forall>m \<in> set ms. well_formed m \<Longrightarrow> sorted_wrt before (sort_messages ms)"
proof (induction ms)
  case Nil
  then show ?case by (simp add: sort_messages_def)
next
  case (Cons m ms)
  then have "sorted_wrt before (sort_messages ms)" by simp
  moreover have "\<forall>y \<in> set (sort_messages ms). well_formed y"
    using Cons.prems by (simp add: set_sort_messages)
  ultimately have "sorted_wrt before (insert_sorted m (sort_messages ms))"
    using Cons.prems by (intro sorted_insert_sorted) simp_all
  then show ?case by (simp add: sort_messages_def)
qed

text \<open>Stability for the rollups: a rollup is put in front of the rollups already there.\<close>

lemma filter_rollup_insert_sorted:
  "well_formed x \<Longrightarrow> \<forall>y \<in> set ys. well_formed y \<Longrightarrow>
     filter m_rollup (insert_sorted x ys)
       = (if m_rollup x then x # filter m_rollup ys else filter m_rollup ys)"
proof (induction ys)
  case Nil
  then show ?case by simp
next
  case (Cons y ys)
  then show ?case by (auto simp: sort_compare_wf)
qed

lemma filter_rollup_sort_messages:
  "\<forall>m \<in> set ms. well_formed m \<Longrightarrow> filter m_rollup (sort_messages ms) = filter m_rollup ms"
proof (induction ms)
  case Nil
  then show ?case by (simp add: sort_messages_def)
next
  case (Cons m ms)
  have "\<forall>y \<in> set (sort_messages ms). well_formed y"
    using Cons.prems by (simp add: set_sort_messages)
  with Cons show ?case
    using filter_rollup_insert_sorted[of m "sort_messages ms"]
    by (simp add: sort_messages_def)
qed

lemma sorted_rollups_last:
  "sorted_wrt before ms \<Longrightarrow> \<forall>m \<in> set ms. well_formed m \<Longrightarrow>
     ms = filter (\<lambda>m. \<not> m_rollup m) ms @ filter m_rollup ms"
proof (induction ms)
  case Nil
  then show ?case by simp
next
  case (Cons m ms)
  then have ih: "ms = filter (\<lambda>m. \<not> m_rollup m) ms @ filter m_rollup ms" by simp
  show ?case
  proof (cases "m_rollup m")
    case True
    have "\<forall>z \<in> set ms. m_rollup z"
    proof
      fix z assume z: "z \<in> set ms"
      with Cons.prems have "before m z" "well_formed m" "well_formed z" by auto
      with True show "m_rollup z" by (auto simp: before_def sort_compare_wf split: if_splits)
    qed
    then have "filter (\<lambda>m. \<not> m_rollup m) ms = []" "filter m_rollup ms = ms"
      by (auto simp: filter_empty_conv)
    with True show ?thesis by simp
  next
    case False
    with ih show ?thesis by simp
  qed
qed

text \<open>The sort moves messages, it neither drops nor adds one.\<close>

lemma length_filter_insert_sorted:
  "length (filter P (insert_sorted x ys)) = length (filter P (x # ys))"
  by (induction ys) auto

lemma length_filter_sort_messages:
  "length (filter P (sort_messages ms)) = length (filter P ms)"
  by (induction ms) (auto simp: sort_messages_def length_filter_insert_sorted)

section \<open>The messages of a call of verify\<close>

lemma one_call_props:
  assumes "m \<in> set (one_call h r rid c)"
  shows "well_formed m" "m_rule m = Some rid" "r_lines r = [] \<Longrightarrow> m_evidence m = None"
  using assms
  by (cases c;
      auto simp: one_call_def error_def report_def info_def rollupError_def rollupWarn_def
        stat_def push_def positional_def rollup_message_def well_formed_def at_index_def
        split: if_splits)+


lemma verify_reporter_origin:
  assumes "verify_reporter rules run h text arg = (r, h', rs)"
  shows "r_lines r = []" "r_ruleset r = rs"
    "\<forall>m \<in> set (r_messages r).
       from_rules h' r (rules_of (attach rules (h' ! rs))) m
       \<or> (\<exists>stack ex. pr_fatal run = Some (stack, ex) \<and> m = fatal_message r stack ex)"
proof -
  obtain allow ignore h1 where res: "resolve_ruleset rules h text arg = (rs, allow, ignore, h1)"
    and h': "h' = h1[rs := obj_set ''errors'' 2 (h1 ! rs)]"
    using assms by (auto simp: verify_reporter_def Let_def split: prod.splits)
  let ?r0 = "new_Reporter [] rs allow ignore"
  let ?r1 = "dispatch h' (pr_events run) (attach rules (h' ! rs)) ?r0"
  have r: "r = (case pr_fatal run of None \<Rightarrow> ?r1
               | Some (stack, ex) \<Rightarrow>
                   error ?r1 (''Fatal error, cannot continue!'' @ [CHR 0x0A] @ stack) ex None)"
    unfolding h' using assms res by (auto simp: verify_reporter_def Let_def)
  from dispatch_messages[of ?r0 h' "pr_events run" "attach rules (h' ! rs)"] obtain new where
    c: "same_config ?r0 ?r1" and m: "r_messages ?r1 = new"
    and o: "\<forall>m \<in> set new. from_rules h' ?r0 (rules_of (attach rules (h' ! rs))) m"
    by (auto simp: new_Reporter_def)
  have c1: "same_config ?r1 r"
    using r by (auto simp: same_config_def error_def push_def split: option.splits)
  have c01: "same_config ?r0 r" using c c1 same_config_trans by blast
  then have c10: "same_config r ?r0" by (simp add: same_config_def)
  from c01 show "r_lines r = []" "r_ruleset r = rs"
    by (simp_all add: same_config_def new_Reporter_def)
  show "\<forall>m \<in> set (r_messages r).
       from_rules h' r (rules_of (attach rules (h' ! rs))) m
       \<or> (\<exists>stack ex. pr_fatal run = Some (stack, ex) \<and> m = fatal_message r stack ex)"
  proof
    fix x assume x: "x \<in> set (r_messages r)"
    show "from_rules h' r (rules_of (attach rules (h' ! rs))) x
       \<or> (\<exists>stack ex. pr_fatal run = Some (stack, ex) \<and> x = fatal_message r stack ex)"
    proof (cases "pr_fatal run")
      case None
      with r x m have "x \<in> set new" by simp
      with o have "from_rules h' ?r0 (rules_of (attach rules (h' ! rs))) x" by blast
      then show ?thesis using from_rules_config[OF c10] by blast
    next
      case (Some a)
      obtain stack ex where a: "a = (stack, ex)" by (cases a)
      have pe: "positional Error ?r1 msg ex None = positional Error r msg ex None" for msg
        using c1 by (simp add: positional_def same_config_def)
      define msg where "msg = ''Fatal error, cannot continue!'' @ [CHR 0x0A] @ stack"
      from r Some a have "r = error ?r1 msg ex None" by (simp add: msg_def)
      then have "r_messages r = r_messages ?r1 @ [positional Error ?r1 msg ex None]"
        by (simp add: error_def push_def)
      then have "r_messages r = new @ [fatal_message r stack ex]"
        unfolding fatal_message_def msg_def[symmetric] by (simp only: m pe)
      with x have "x \<in> set new \<or> x = fatal_message r stack ex" by auto
      then show ?thesis
      proof
        assume "x \<in> set new"
        with o have "from_rules h' ?r0 (rules_of (attach rules (h' ! rs))) x" by blast
        then show ?thesis using from_rules_config[OF c10] by blast
      next
        assume "x = fatal_message r stack ex"
        with Some a show ?thesis by blast
      qed
    qed
  qed
qed

lemma fatal_message_props:
  "well_formed (fatal_message r stack ex)" "m_rule (fatal_message r stack ex) = None"
  "r_lines r = [] \<Longrightarrow> m_evidence (fatal_message r stack ex) = None"
  by (simp_all add: fatal_message_def positional_def well_formed_def at_index_def)

lemma verify_reporter_well_formed:
  assumes "verify_reporter rules run h text arg = (r, h', rs)"
  shows "\<forall>m \<in> set (r_messages r). well_formed m \<and> m_evidence m = None"
proof
  fix m assume m: "m \<in> set (r_messages r)"
  from verify_reporter_origin[OF assms] m have l: "r_lines r = []" and
    d: "from_rules h' r (rules_of (attach rules (h' ! rs))) m
       \<or> (\<exists>stack ex. pr_fatal run = Some (stack, ex) \<and> m = fatal_message r stack ex)" by auto
  from d show "well_formed m \<and> m_evidence m = None"
  proof
    assume "from_rules h' r (rules_of (attach rules (h' ! rs))) m"
    then obtain rid c where "m \<in> set (one_call h' r rid c)" unfolding from_rules_def by blast
    from one_call_props[OF this] l show ?thesis by simp
  next
    assume "\<exists>stack ex. pr_fatal run = Some (stack, ex) \<and> m = fatal_message r stack ex"
    with fatal_message_props l show ?thesis by auto
  qed
qed

lemma postprocess_fields [simp]:
  "m_rollup (postprocess m) = m_rollup m" "m_line (postprocess m) = m_line m"
  "m_col (postprocess m) = m_col m" "m_rule (postprocess m) = m_rule m"
  "m_type (postprocess m) = m_type m" "m_evidence (postprocess m) = m_evidence m"
  by (simp_all add: postprocess_def)

lemma messages_of_verify:
  "verify_reporter rules run h text arg = (r, h', rs) \<Longrightarrow>
     messages_of (fst (verify rules run h text arg))
       = map postprocess (sort_messages (r_messages r))"
  by (simp add: verify_def feedback_def messages_of_def obj_get_def)

lemma before_line_then_col:
  "well_formed a \<Longrightarrow> well_formed b \<Longrightarrow> \<not> m_rollup a \<Longrightarrow> \<not> m_rollup b \<Longrightarrow> before a b
     \<Longrightarrow> line_then_col (postprocess a) (postprocess b)"
  by (auto simp: before_def sort_compare_wf line_then_col_def well_formed_def num_of_def
      split: if_splits)


section \<open>The effective ruleset and the attached rules\<close>

lemma fst_obj_set: "set (map fst (obj_set k v obj)) = insert k (set (map fst obj))"
proof (induction obj)
  case Nil
  then show ?case by simp
next
  case (Cons a obj)
  obtain k' v' where a: "a = (k', v')" by (cases a)
  show ?case
  proof (cases "k = k'")
    case True
    then show ?thesis by (simp add: a)
  next
    case False
    have "set (map fst (obj_set k v (a # obj))) = insert k' (set (map fst (obj_set k v obj)))"
      using False by (simp add: a)
    also have "\<dots> = insert k' (insert k (set (map fst obj)))" by (simp only: Cons.IH)
    finally show ?thesis by (simp add: a insert_commute)
  qed
qed

lemma distinct_obj_set: "distinct (map fst obj) \<Longrightarrow> distinct (map fst (obj_set k v obj))"
proof (induction obj)
  case Nil
  then show ?case by simp
next
  case (Cons a obj)
  obtain k' v' where a: "a = (k', v')" by (cases a)
  show ?case
  proof (cases "k = k'")
    case True
    with Cons.prems a show ?thesis by simp
  next
    case False
    have "k' \<notin> set (map fst (obj_set k v obj))"
      using Cons.prems a False by (simp only: fst_obj_set) auto
    with Cons a False show ?thesis by simp
  qed
qed

lemma distinct_apply_rule:
  "distinct (map fst rs) \<Longrightarrow> distinct (map fst (apply_rule rs rule))"
  by (simp add: apply_rule_def Let_def distinct_obj_set)

lemma distinct_foldl_apply_rule:
  "distinct (map fst rs) \<Longrightarrow> distinct (map fst (foldl apply_rule rs xs))"
  by (induction xs arbitrary: rs) (simp_all add: distinct_apply_rule)

lemma directive_distinct:
  "distinct (map fst (s_ruleset s)) \<Longrightarrow> distinct (map fst (s_ruleset (directive g s)))"
  by (simp add: directive_def apply_allow_def apply_ignore_def Let_def distinct_foldl_apply_rule)

lemma count_lines_ruleset [simp]: "s_ruleset (count_lines t idx s) = s_ruleset s"
  by (simp add: count_lines_def split: prod.splits)

lemma scan_loop_distinct:
  "distinct (map fst (s_ruleset s)) \<Longrightarrow> distinct (map fst (s_ruleset (scan_loop t i s)))"
proof (induction t i s rule: scan_loop.induct)
  case (1 t lastIndex s)
  show ?case
  proof (cases "exec t lastIndex")
    case None
    with 1 show ?thesis by (simp add: scan_loop.simps)
  next
    case (Some a)
    obtain idx g j where a: "a = (idx, g, j)" by (cases a)
    have "distinct (map fst (s_ruleset (directive g (count_lines t idx s))))"
      using "1.prems" by (simp add: directive_distinct)
    from "1.IH"[OF Some a[symmetric] refl this] Some a show ?thesis
      by (simp add: scan_loop.simps)
  qed
qed

lemma applyEmbeddedOverrides_distinct:
  "distinct (map fst rs) \<Longrightarrow> applyEmbeddedOverrides t i rs al ig = (rs', al', ig')
     \<Longrightarrow> distinct (map fst rs')"
  using scan_loop_distinct[of "\<lparr>s_ruleset = rs, s_allow = al, s_ignore = ig,
                 s_ignoreStart = None, s_ignoreEnd = None, s_lineno = 0, s_eol = -1\<rparr>" t i]
  by (auto simp: applyEmbeddedOverrides_def Let_def)

lemma getRuleSet_distinct: "distinct (map fst (getRuleSet rules))"
proof -
  have "distinct (map fst acc) \<Longrightarrow>
      distinct (map fst (foldl (\<lambda>ruleset rid. obj_set rid 1 ruleset) acc ids))"
    for acc :: ruleset and ids
    by (induction ids arbitrary: acc) (simp_all add: distinct_obj_set)
  from this[of "[]"] show ?thesis by (simp add: getRuleSet_def)
qed

lemma effective_ruleset_distinct:
  assumes "verify_reporter rules run h t arg = (r, h', rs)"
    and "\<forall>a. arg = Some a \<longrightarrow> a < length h \<and> distinct (map fst (h ! a))"
  shows "distinct (map fst (h' ! rs))"
proof -
  obtain allow ignore h1 where res: "resolve_ruleset rules h t arg = (rs, allow, ignore, h1)"
    and h': "h' = h1[rs := obj_set ''errors'' 2 (h1 ! rs)]"
    using assms(1) by (auto simp: verify_reporter_def Let_def split: prod.splits)
  obtain ruleset h0 where
    r0: "(case arg of None \<Rightarrow> alloc h (getRuleSet rules) | Some a \<Rightarrow> (a, h)) = (ruleset, h0)"
    by (cases "(case arg of None \<Rightarrow> alloc h (getRuleSet rules) | Some a \<Rightarrow> (a, h))")
  have d0: "ruleset < length h0 \<and> distinct (map fst (h0 ! ruleset))"
  proof (cases arg)
    case None
    with r0 have "ruleset = length h" "h0 = h @ [getRuleSet rules]" by (simp_all add: alloc_def)
    then show ?thesis using getRuleSet_distinct[of rules] by simp
  next
    case (Some a)
    with r0 have "ruleset = a" "h0 = h" by simp_all
    with Some assms(2) show ?thesis by simp
  qed
  have "rs < length h1 \<and> distinct (map fst (h1 ! rs))"
  proof (cases "0 \<le> probe t")
    case True
    obtain rs' al ig where
      ae: "applyEmbeddedOverrides t (nat (probe t)) (h0 ! ruleset) [] [] = (rs', al, ig)"
      by (cases "applyEmbeddedOverrides t (nat (probe t)) (h0 ! ruleset) [] []")
    from applyEmbeddedOverrides_distinct[OF _ ae] d0 have d: "distinct (map fst rs')" by simp
    have "resolve_ruleset rules h t arg
            = (length h0, al, ig, h0 @ [rs'])"
      unfolding resolve_ruleset_def r0 using True ae by (simp add: alloc_def nth_append)
    with res have "rs = length h0" "h1 = h0 @ [rs']" by simp_all
    with d show ?thesis by simp
  next
    case False
    have "resolve_ruleset rules h t arg = (ruleset, [], [], h0)"
      unfolding resolve_ruleset_def r0 using False by simp
    with res d0 show ?thesis by simp
  qed
  then show ?thesis by (simp add: h' distinct_obj_set)
qed

lemma attach_Nil [simp]: "attach rules [] = []"
  by (simp add: attach_def)

lemma attach_Cons:
  "attach rules ((rid, mode) # rs) =
     (if mode \<noteq> 0 then
        (case obj_get rules rid of None \<Rightarrow> attach rules rs
         | Some rule \<Rightarrow> (rid, rule, init rule) # attach rules rs)
      else attach rules rs)"
  by (simp add: attach_def split: option.splits)

lemma attach_mem:
  "(rid, rule, st) \<in> set (attach rules rs)
     = (\<exists>mode. (rid, mode) \<in> set rs \<and> mode \<noteq> 0 \<and> obj_get rules rid = Some rule \<and> st = init rule)"
proof (induction rs)
  case Nil
  then show ?case by simp
next
  case (Cons a rs)
  obtain k v where a: "a = (k, v)" by (cases a)
  show ?case
  proof (cases "v \<noteq> 0 \<and> obj_get rules k \<noteq> None")
    case True
    then obtain ru where ru: "obj_get rules k = Some ru" by auto
    with True have "attach rules (a # rs) = (k, ru, init ru) # attach rules rs"
      by (simp add: a attach_Cons)
    with Cons ru True a show ?thesis by auto
  next
    case False
    then have "attach rules (a # rs) = attach rules rs"
      by (auto simp: a attach_Cons)
    with Cons False a show ?thesis by auto
  qed
qed


lemma attach_ids: "fst ` set (attach rules rs) \<subseteq> fst ` set rs"
proof
  fix x assume "x \<in> fst ` set (attach rules rs)"
  then obtain rule st where "(x, rule, st) \<in> set (attach rules rs)" by force
  then obtain mode where "(x, mode) \<in> set rs" unfolding attach_mem by blast
  then show "x \<in> fst ` set rs" by force
qed

lemma attach_distinct: "distinct (map fst rs) \<Longrightarrow> distinct (map fst (attach rules rs))"
proof (induction rs)
  case Nil
  then show ?case by simp
next
  case (Cons a rs)
  obtain k v where a: "a = (k, v)" by (cases a)
  have nk: "k \<notin> fst ` set (attach rules rs)" using Cons.prems a attach_ids[of rules rs] by auto
  have ih: "distinct (map fst (attach rules rs))" using Cons by simp
  show ?case
  proof (cases "v \<noteq> 0 \<and> obj_get rules k \<noteq> None")
    case True
    then obtain ru where ru: "obj_get rules k = Some ru" by auto
    with True have "attach rules (a # rs) = (k, ru, init ru) # attach rules rs"
      by (simp add: a attach_Cons)
    with nk ih show ?thesis by simp
  next
    case False
    then have "attach rules (a # rs) = attach rules rs"
      by (auto simp: a attach_Cons)
    with ih show ?thesis by simp
  qed
qed



section \<open>The messages of one rule in a call of verify\<close>

lemma all_calls_append:
  "all_calls rule st (xs @ ys) = all_calls rule st xs @ all_calls rule (final_state rule st xs) ys"
  by (induction xs arbitrary: st) simp_all

lemma floats_quiet:
  "EndStylesheet \<notin> set evs \<Longrightarrow>
     all_calls floats_rule k evs = []
     \<and> final_state floats_rule k evs = k + length (filter float_not_none evs)"
proof (induction evs arbitrary: k)
  case Nil
  then show ?case by simp
next
  case (Cons e evs)
  then have ne: "e \<noteq> EndStylesheet" and rest: "EndStylesheet \<notin> set evs" by auto
  have step: "listener floats_rule k e = ([], k + of_bool (float_not_none e))"
    using ne by (cases e) (simp_all add: floats_rule_def float_not_none_def)
  from Cons.IH[OF rest, of "k + of_bool (float_not_none e)"] step show ?case
    by (simp add: of_bool_def)
qed

lemma floats_end:
  "all_calls floats_rule n [EndStylesheet]
     = CallStat ''floats'' n # (if 10 \<le> n then [CallRollupWarn (floats_message n)] else [])"
  by (simp add: floats_rule_def)

lemma one_call_stat [simp]: "one_call h r rid (CallStat name v) = []"
  by (simp add: one_call_def stat_def)

lemma one_call_rollupWarn [simp]:
  "one_call h r rid (CallRollupWarn msg) = [rollup_message Warning msg (Some rid)]"
  by (simp add: one_call_def rollupWarn_def push_def)

lemma floats_calls:
  "EndStylesheet \<notin> set evs \<Longrightarrow>
     concat (map (one_call h r ''floats'')
               (all_calls floats_rule (init floats_rule) (evs @ [EndStylesheet])))
       = (if 10 \<le> length (filter float_not_none evs)
          then [rollup_message Warning (floats_message (length (filter float_not_none evs)))
                  (Some ''floats'')]
          else [])"
proof -
  assume a: "EndStylesheet \<notin> set evs"
  let ?n = "length (filter float_not_none evs)"
  have i: "init floats_rule = 0" by (simp add: floats_rule_def)
  from floats_quiet[OF a, of 0] have q: "all_calls floats_rule 0 evs = []"
    "final_state floats_rule 0 evs = ?n" by simp_all
  have "all_calls floats_rule (init floats_rule) (evs @ [EndStylesheet])
      = all_calls floats_rule ?n [EndStylesheet]"
    unfolding i all_calls_append q by simp
  also have "\<dots> = CallStat ''floats'' ?n
      # (if 10 \<le> ?n then [CallRollupWarn (floats_message ?n)] else [])"
    by (rule floats_end)
  finally show ?thesis by simp
qed

lemma by_rule_sort_messages:
  assumes "length (by_rule rid ms) \<le> 1"
  shows "by_rule rid (sort_messages ms) = by_rule rid ms"
proof -
  have l: "length (by_rule rid (sort_messages ms)) = length (by_rule rid ms)"
    unfolding by_rule_def by (rule length_filter_sort_messages)
  have s: "set (by_rule rid (sort_messages ms)) = set (by_rule rid ms)"
    by (simp add: by_rule_def set_sort_messages)
  show ?thesis
  proof (cases "by_rule rid ms")
    case Nil
    with l show ?thesis by simp
  next
    case (Cons x xs)
    with assms have xs: "xs = []" by simp
    with Cons l obtain y where y: "by_rule rid (sort_messages ms) = [y]"
      by (cases "by_rule rid (sort_messages ms)") auto
    with s Cons xs show ?thesis by simp
  qed
qed

lemma by_rule_map_postprocess:
  "by_rule rid (map postprocess ms) = map postprocess (by_rule rid ms)"
  by (simp add: by_rule_def filter_map comp_def)

lemma verify_reporter_shape:
  assumes "verify_reporter rules run h t arg = (r, h', rs)"
  shows "\<exists>allow ignore.
     r = (case pr_fatal run of
            None \<Rightarrow> dispatch h' (pr_events run) (attach rules (h' ! rs))
                      (new_Reporter [] rs allow ignore)
          | Some (stack, ex) \<Rightarrow>
              error (dispatch h' (pr_events run) (attach rules (h' ! rs))
                       (new_Reporter [] rs allow ignore))
                (''Fatal error, cannot continue!'' @ [CHR 0x0A] @ stack) ex None)"
proof -
  obtain allow ignore h1 where res: "resolve_ruleset rules h t arg = (rs, allow, ignore, h1)"
    and h': "h' = h1[rs := obj_set ''errors'' 2 (h1 ! rs)]"
    using assms by (auto simp: verify_reporter_def Let_def split: prod.splits)
  have "r = (case pr_fatal run of
            None \<Rightarrow> dispatch h' (pr_events run) (attach rules (h' ! rs))
                      (new_Reporter [] rs allow ignore)
          | Some (stack, ex) \<Rightarrow>
              error (dispatch h' (pr_events run) (attach rules (h' ! rs))
                       (new_Reporter [] rs allow ignore))
                (''Fatal error, cannot continue!'' @ [CHR 0x0A] @ stack) ex None)"
    unfolding h' using assms res by (auto simp: verify_reporter_def Let_def)
  then show ?thesis by blast
qed

lemma verify_by_rule:
  assumes vr: "verify_reporter rules run h t arg = (r, h', rs)"
    and wf: "\<forall>a. arg = Some a \<longrightarrow> a < length h \<and> distinct (map fst (h ! a))"
    and reg: "obj_get rules rid = Some rule"
    and on: "obj_get (h' ! rs) rid = Some lvl" "lvl \<noteq> 0"
  shows "by_rule rid (r_messages r)
           = concat (map (one_call h' r rid) (all_calls rule (init rule) (pr_events run)))"
proof -
  from verify_reporter_shape[OF vr] obtain allow ignore where
    r: "r = (case pr_fatal run of
            None \<Rightarrow> dispatch h' (pr_events run) (attach rules (h' ! rs))
                      (new_Reporter [] rs allow ignore)
          | Some (stack, ex) \<Rightarrow>
              error (dispatch h' (pr_events run) (attach rules (h' ! rs))
                       (new_Reporter [] rs allow ignore))
                (''Fatal error, cannot continue!'' @ [CHR 0x0A] @ stack) ex None)" by blast
  let ?r0 = "new_Reporter [] rs allow ignore"
  let ?D = "dispatch h' (pr_events run) (attach rules (h' ! rs)) ?r0"
  have d: "distinct (map fst (h' ! rs))" by (rule effective_ruleset_distinct[OF vr wf])
  have da: "distinct (map fst (attach rules (h' ! rs)))" by (rule attach_distinct[OF d])
  from on have "(rid, lvl) \<in> set (h' ! rs)" by (simp add: obj_get_def map_of_SomeD)
  with on(2) reg have mem: "(rid, rule, init rule) \<in> set (attach rules (h' ! rs))"
    unfolding attach_mem by blast
  have c: "same_config ?r0 r"
    using r dispatch_messages[of ?r0 h' "pr_events run" "attach rules (h' ! rs)"]
    by (auto simp: same_config_def error_def push_def split: option.splits)
  have "by_rule rid (r_messages r) = by_rule rid (r_messages ?D)"
    using r by (auto simp: by_rule_def error_def push_def positional_def split: option.splits)
  also have "\<dots> = by_rule rid (r_messages ?r0)
        @ concat (map (one_call h' ?r0 rid) (all_calls rule (init rule) (pr_events run)))"
    by (rule dispatch_rule[OF da mem])
  finally have "by_rule rid (r_messages r) = by_rule rid (r_messages ?r0)
        @ concat (map (one_call h' ?r0 rid) (all_calls rule (init rule) (pr_events run)))" .
  moreover have "by_rule rid (r_messages ?r0) = []" by (simp add: new_Reporter_def by_rule_def)
  moreover have "one_call h' ?r0 rid = one_call h' r rid"
    using one_call_config[OF c] by (intro ext)
  ultimately show ?thesis by simp
qed


lemma verify_floats_messages:
  assumes vr: "verify_reporter rules run h t arg = (r, h', rs)"
    and wf: "\<forall>a. arg = Some a \<longrightarrow> a < length h \<and> distinct (map fst (h ! a))"
    and reg: "obj_get rules ''floats'' = Some floats_rule"
    and on: "obj_get (h' ! rs) ''floats'' = Some lvl" "lvl \<noteq> 0"
    and evs: "pr_events run = evs @ [EndStylesheet]" "EndStylesheet \<notin> set evs"
  shows "by_rule ''floats'' (messages_of (fst (verify rules run h t arg)))
           = (if 10 \<le> length (filter float_not_none evs)
              then [postprocess (rollup_message Warning
                      (floats_message (length (filter float_not_none evs))) (Some ''floats''))]
              else [])"
proof -
  have e: "by_rule ''floats'' (r_messages r)
      = (if 10 \<le> length (filter float_not_none evs)
          then [rollup_message Warning (floats_message (length (filter float_not_none evs)))
                  (Some ''floats'')]
          else [])"
    unfolding verify_by_rule[OF vr wf reg on] evs(1) by (rule floats_calls[OF evs(2)])
  then have "length (by_rule ''floats'' (r_messages r)) \<le> 1" by simp
  from by_rule_sort_messages[OF this] e show ?thesis
    unfolding messages_of_verify[OF vr] by_rule_map_postprocess by simp
qed

section \<open>The order of the returned messages\<close>

text \<open>
  C1. In the messages \<^verbatim>\<open>verify\<close> returns, the messages that are not rollups come first,
  ascending by line and then by column, and the rollups follow, in the order in which the
  Reporter received them (the returned rollups are the post-processed rollups of the
  Reporter, in its order).
\<close>

theorem verify_messages_order:
  fixes rules :: "(string \<times> 's rule) list"
  defines "out \<equiv> \<lambda>rules run h text arg. messages_of (fst (verify rules run h text arg))"
  shows "out rules run h text arg
           = filter (\<lambda>m. \<not> m_rollup m) (out rules run h text arg)
             @ filter m_rollup (out rules run h text arg)
         \<and> sorted_wrt line_then_col (filter (\<lambda>m. \<not> m_rollup m) (out rules run h text arg))
         \<and> filter m_rollup (out rules run h text arg)
             = map postprocess
                 (filter m_rollup (r_messages (fst (verify_reporter rules run h text arg))))"
proof -
  obtain r h' rs where vr: "verify_reporter rules run h text arg = (r, h', rs)"
    by (cases "verify_reporter rules run h text arg")
  define S where "S = sort_messages (r_messages r)"
  have o: "out rules run h text arg = map postprocess S"
    unfolding out_def S_def by (rule messages_of_verify[OF vr])
  have wf: "\<forall>m \<in> set (r_messages r). well_formed m"
    using verify_reporter_well_formed[OF vr] by blast
  then have wfS: "\<forall>m \<in> set S. well_formed m" by (simp add: S_def set_sort_messages)
  have sorted: "sorted_wrt before S" unfolding S_def by (rule sorted_sort_messages[OF wf])
  have split: "S = filter (\<lambda>m. \<not> m_rollup m) S @ filter m_rollup S"
    by (rule sorted_rollups_last[OF sorted wfS])
  have roll: "filter m_rollup S = filter m_rollup (r_messages r)"
    unfolding S_def by (rule filter_rollup_sort_messages[OF wf])
  have f1: "filter m_rollup (map postprocess S) = map postprocess (filter m_rollup S)"
    by (simp add: filter_map comp_def)
  have f2: "filter (\<lambda>m. \<not> m_rollup m) (map postprocess S)
          = map postprocess (filter (\<lambda>m. \<not> m_rollup m) S)"
    by (simp add: filter_map comp_def)
  have "sorted_wrt before (filter (\<lambda>m. \<not> m_rollup m) S)"
    using sorted by (rule sorted_wrt_filter)
  then have "sorted_wrt (\<lambda>a b. line_then_col (postprocess a) (postprocess b))
               (filter (\<lambda>m. \<not> m_rollup m) S)"
    by (rule sorted_wrt_mono_rel[rotated]) (use wfS before_line_then_col in auto)
  then have s2: "sorted_wrt line_then_col (map postprocess (filter (\<lambda>m. \<not> m_rollup m) S))"
    by (simp add: sorted_wrt_map)
  have p1: "map postprocess S
      = filter (\<lambda>m. \<not> m_rollup m) (map postprocess S) @ filter m_rollup (map postprocess S)"
    unfolding f1 f2 by (subst split) simp
  show ?thesis
    unfolding o using p1 s2 f1 f2 roll vr by simp
qed

text \<open>Two \<^verbatim>\<open>important\<close> reports on line 2, emitted with the later column first, a parse error
  on line 1 emitted after them, and the rollup of \<^verbatim>\<open>font-faces\<close>.\<close>

theorem verify_messages_order_witness:
  "map (\<lambda>m. (m_rule m, m_line m, m_col m)) (messages_of (fst (verify catalog
       \<lparr>pr_events =
          [Property \<lparr>pt_text = ''color'', pt_lowText = None, pt_vendorPos = 0\<rparr> ''red'' True
             \<lparr>p_line = Some 2, p_col = Some 7\<rparr>,
           Property \<lparr>pt_text = ''top'', pt_lowText = None, pt_vendorPos = 0\<rparr> ''0'' True
             \<lparr>p_line = Some 2, p_col = Some 3\<rparr>,
           ParseError ''Unexpected token'' \<lparr>p_line = Some 1, p_col = Some 9\<rparr>,
           StartFontface, StartFontface, StartFontface, StartFontface, StartFontface,
           StartFontface, EndStylesheet],
        pr_fatal = None\<rparr>
       [] ''a{}'' None)))
     = [(Some ''errors'', Some 1, Some 9), (Some ''important'', Some 2, Some 3),
        (Some ''important'', Some 2, Some 7), (Some ''font-faces'', None, None)]
   \<and> sorted_wrt line_then_col (filter (\<lambda>m. \<not> m_rollup m) (messages_of (fst (verify catalog
       \<lparr>pr_events =
          [Property \<lparr>pt_text = ''color'', pt_lowText = None, pt_vendorPos = 0\<rparr> ''red'' True
             \<lparr>p_line = Some 2, p_col = Some 7\<rparr>,
           Property \<lparr>pt_text = ''top'', pt_lowText = None, pt_vendorPos = 0\<rparr> ''0'' True
             \<lparr>p_line = Some 2, p_col = Some 3\<rparr>,
           ParseError ''Unexpected token'' \<lparr>p_line = Some 1, p_col = Some 9\<rparr>,
           StartFontface, StartFontface, StartFontface, StartFontface, StartFontface,
           StartFontface, EndStylesheet],
        pr_fatal = None\<rparr>
       [] ''a{}'' None))))"
proof -
  have "map (\<lambda>m. (m_rule m, m_line m, m_col m)) (messages_of (fst (verify catalog
       \<lparr>pr_events =
          [Property \<lparr>pt_text = ''color'', pt_lowText = None, pt_vendorPos = 0\<rparr> ''red'' True
             \<lparr>p_line = Some 2, p_col = Some 7\<rparr>,
           Property \<lparr>pt_text = ''top'', pt_lowText = None, pt_vendorPos = 0\<rparr> ''0'' True
             \<lparr>p_line = Some 2, p_col = Some 3\<rparr>,
           ParseError ''Unexpected token'' \<lparr>p_line = Some 1, p_col = Some 9\<rparr>,
           StartFontface, StartFontface, StartFontface, StartFontface, StartFontface,
           StartFontface, EndStylesheet],
        pr_fatal = None\<rparr>
       [] ''a{}'' None)))
     = [(Some ''errors'', Some 1, Some 9), (Some ''important'', Some 2, Some 3),
        (Some ''important'', Some 2, Some 7), (Some ''font-faces'', None, None)]"
    by code_simp
  with verify_messages_order[of catalog _ "[]" "''a{}''" None] show ?thesis by blast
qed

section \<open>The returned object\<close>

text \<open>
  C2 as stated does not hold: the object \<^verbatim>\<open>verify\<close> returns for \<^verbatim>\<open>.a{float:left}\<close> has no
  \<^verbatim>\<open>stats\<close> field, although the \<^verbatim>\<open>floats\<close> rule has recorded its count in the Reporter.
\<close>

theorem verify_stats_counterexample:
  "obj_get (fst (verify catalog
       \<lparr>pr_events = [Property \<lparr>pt_text = ''float'', pt_lowText = None, pt_vendorPos = 0\<rparr>
                       ''left'' False \<lparr>p_line = Some 1, p_col = Some 4\<rparr>, EndStylesheet],
        pr_fatal = None\<rparr> [] ''.a{float:left}'' None)) ''stats'' = None
   \<and> obj_get (r_stats (fst (verify_reporter catalog
       \<lparr>pr_events = [Property \<lparr>pt_text = ''float'', pt_lowText = None, pt_vendorPos = 0\<rparr>
                       ''left'' False \<lparr>p_line = Some 1, p_col = Some 4\<rparr>, EndStylesheet],
        pr_fatal = None\<rparr> [] ''.a{float:left}'' None))) ''floats'' = Some 1"
  by code_simp

text \<open>
  C2, as amended. The object \<^verbatim>\<open>verify\<close> returns has one field, \<^verbatim>\<open>messages\<close>, which holds the
  array of messages; it has no \<^verbatim>\<open>stats\<close> field. What \<^verbatim>\<open>reporter.stat\<close> records stays in the
  Reporter, which the call does not return.
\<close>

theorem verify_returns_messages_only:
  "map fst (fst (verify rules run h t arg)) = [''messages'']
   \<and> obj_get (fst (verify rules run h t arg)) ''stats'' = None
   \<and> obj_get (fst (verify rules run h t arg)) ''messages''
        = Some (MessageArray (messages_of (fst (verify rules run h t arg))))"
  by (simp add: verify_def feedback_def obj_get_def messages_of_def split: prod.splits)

section \<open>The probe\<close>

text \<open>
  C3. The probe looks for \<^verbatim>\<open>csslint\<close> in lower case, the expression \<^verbatim>\<open>rxEmbedded\<close> takes either
  case. For the text

  \<^verbatim>\<open>a{}\<close>
  \<^verbatim>\<open>/* CSSLINT ignore:start */\<close>
  \<^verbatim>\<open>.e{color:red!important}\<close>
  \<^verbatim>\<open>/* CSSLINT ignore:end */\<close>

  the probe is \<open>-1\<close>, so \<^verbatim>\<open>verify\<close> scans nothing, keeps the caller's ruleset and has no
  ignore range, and returns the \<^verbatim>\<open>important\<close> message of line 3; the scan from index 0 gives
  the ignore range \<open>[2, 4]\<close>, and the same text with \<^verbatim>\<open>csslint\<close> in lower case gives no
  message.
\<close>

theorem probe_misses_upper_case_directive:
  "probe (''a{}'' @ [CHR 0x0A] @ ''/* CSSLINT ignore:start */'' @ [CHR 0x0A]
          @ ''.e{color:red!important}'' @ [CHR 0x0A] @ ''/* CSSLINT ignore:end */'') = -1
   \<and> resolve_ruleset catalog [[(''important'', 1)]]
        (''a{}'' @ [CHR 0x0A] @ ''/* CSSLINT ignore:start */'' @ [CHR 0x0A]
          @ ''.e{color:red!important}'' @ [CHR 0x0A] @ ''/* CSSLINT ignore:end */'') (Some 0)
       = (0, [], [], [[(''important'', 1)]])
   \<and> applyEmbeddedOverrides
        (''a{}'' @ [CHR 0x0A] @ ''/* CSSLINT ignore:start */'' @ [CHR 0x0A]
          @ ''.e{color:red!important}'' @ [CHR 0x0A] @ ''/* CSSLINT ignore:end */'') 0
        [(''important'', 1)] [] []
       = ([(''important'', 1)], [], [(2, 4)])
   \<and> map m_line (messages_of (fst (verify catalog
        \<lparr>pr_events =
           [Property \<lparr>pt_text = ''color'', pt_lowText = None, pt_vendorPos = 0\<rparr> ''red'' True
              \<lparr>p_line = Some 3, p_col = Some 4\<rparr>,
            EndStylesheet],
         pr_fatal = None\<rparr>
        [[(''important'', 1)]]
        (''a{}'' @ [CHR 0x0A] @ ''/* CSSLINT ignore:start */'' @ [CHR 0x0A]
          @ ''.e{color:red!important}'' @ [CHR 0x0A] @ ''/* CSSLINT ignore:end */'') (Some 0))))
       = [Some 3]
   \<and> messages_of (fst (verify catalog
        \<lparr>pr_events =
           [Property \<lparr>pt_text = ''color'', pt_lowText = None, pt_vendorPos = 0\<rparr> ''red'' True
              \<lparr>p_line = Some 3, p_col = Some 4\<rparr>,
            EndStylesheet],
         pr_fatal = None\<rparr>
        [[(''important'', 1)]]
        (''a{}'' @ [CHR 0x0A] @ ''/* csslint ignore:start */'' @ [CHR 0x0A]
          @ ''.e{color:red!important}'' @ [CHR 0x0A] @ ''/* csslint ignore:end */'') (Some 0)))
       = []"
  by code_simp

section \<open>The Reporter's filter\<close>

lemma allowed_iff:
  "allowed r l rid = (\<exists>ids. obj_get (r_allow r) l = Some ids \<and> rid \<in> set ids)"
  by (simp add: allowed_def split: option.splits)

lemma ignored_iff:
  "ignored r l = (\<exists>S E. (S, E) \<in> set (r_ignore r) \<and> S \<le> l \<and> l \<le> E)"
  by (force simp: ignored_def list_ex_iff)

text \<open>
  C4. \<^verbatim>\<open>report\<close> leaves the Reporter as it is when the rule id is in the allow table's
  entry for the line of the position, or that line lies in some ignore range; otherwise it
  appends one positional message for the rule. So an ignore range \<open>[S, E]\<close> suppresses every
  \<^verbatim>\<open>report\<close> on a line from \<open>S\<close> to \<open>E\<close>. \<^verbatim>\<open>error\<close>, which the \<^verbatim>\<open>errors\<close> rule uses, and
  \<^verbatim>\<open>rollupError\<close> and \<^verbatim>\<open>rollupWarn\<close> append their message whatever the allow table and
  the ignore ranges hold.
\<close>

theorem report_unless_allowed_or_ignored:
  "(if (\<exists>ids. obj_get (r_allow r) (line_of pos) = Some ids \<and> rid \<in> set ids)
       \<or> (\<exists>S E. (S, E) \<in> set (r_ignore r) \<and> S \<le> line_of pos \<and> line_of pos \<le> E)
    then report h r msg pos rid = r
    else \<exists>m. report h r msg pos rid = r\<lparr>r_messages := r_messages r @ [m]\<rparr>
           \<and> m_message m = msg \<and> m_line m = Some (line_of pos) \<and> m_col m = Some (col_of pos)
           \<and> m_rule m = Some rid \<and> \<not> m_rollup m)
   \<and> ((S, E) \<in> set (r_ignore r) \<and> S \<le> line_of pos \<and> line_of pos \<le> E
        \<longrightarrow> report h r msg pos rid = r)
   \<and> (\<exists>m. error r msg pos rule = r\<lparr>r_messages := r_messages r @ [m]\<rparr>
          \<and> m_type m = Error \<and> m_message m = msg \<and> m_line m = Some (line_of pos)
          \<and> m_rule m = rule \<and> \<not> m_rollup m)
   \<and> (\<exists>m. rollupError r msg rule = r\<lparr>r_messages := r_messages r @ [m]\<rparr>
          \<and> m_type m = Error \<and> m_message m = msg \<and> m_rule m = rule \<and> m_rollup m)
   \<and> (\<exists>m. rollupWarn r msg rule = r\<lparr>r_messages := r_messages r @ [m]\<rparr>
          \<and> m_type m = Warning \<and> m_message m = msg \<and> m_rule m = rule \<and> m_rollup m)"
proof -
  have supp: "allowed r (line_of pos) rid \<or> ignored r (line_of pos) \<Longrightarrow> report h r msg pos rid = r"
    by (simp add: report_def)
  have app: "\<not> (allowed r (line_of pos) rid \<or> ignored r (line_of pos)) \<Longrightarrow>
      \<exists>m. report h r msg pos rid = r\<lparr>r_messages := r_messages r @ [m]\<rparr>
           \<and> m_message m = msg \<and> m_line m = Some (line_of pos) \<and> m_col m = Some (col_of pos)
           \<and> m_rule m = Some rid \<and> \<not> m_rollup m"
    by (rule exI[of _ "positional (if level_of h r rid = Some 2 then Error else Warning)
                   r msg pos (Some rid)"])
       (simp add: report_def push_def positional_def)
  have rng: "(S, E) \<in> set (r_ignore r) \<and> S \<le> line_of pos \<and> line_of pos \<le> E
        \<longrightarrow> report h r msg pos rid = r"
    using supp ignored_iff by blast
  have err: "\<exists>m. error r msg pos rule = r\<lparr>r_messages := r_messages r @ [m]\<rparr>
          \<and> m_type m = Error \<and> m_message m = msg \<and> m_line m = Some (line_of pos)
          \<and> m_rule m = rule \<and> \<not> m_rollup m"
    by (rule exI[of _ "positional Error r msg pos rule"])
       (simp add: error_def push_def positional_def)
  have re: "\<exists>m. rollupError r msg rule = r\<lparr>r_messages := r_messages r @ [m]\<rparr>
          \<and> m_type m = Error \<and> m_message m = msg \<and> m_rule m = rule \<and> m_rollup m"
    by (rule exI[of _ "rollup_message Error msg rule"])
       (simp add: rollupError_def push_def rollup_message_def)
  have rw: "\<exists>m. rollupWarn r msg rule = r\<lparr>r_messages := r_messages r @ [m]\<rparr>
          \<and> m_type m = Warning \<and> m_message m = msg \<and> m_rule m = rule \<and> m_rollup m"
    by (rule exI[of _ "rollup_message Warning msg rule"])
       (simp add: rollupWarn_def push_def rollup_message_def)
  show ?thesis
    using supp app rng err re rw unfolding allowed_iff ignored_iff by presburger
qed

text \<open>An \<^verbatim>\<open>empty-rules\<close> report on line 3 with the ignore range \<open>[2, 4]\<close> is dropped.\<close>

theorem report_unless_allowed_or_ignored_witness:
  "report [[(''empty-rules'', 1)]]
     \<lparr>r_messages = [], r_stats = [], r_lines = [], r_ruleset = 0, r_allow = [],
      r_ignore = [(2, 4)]\<rparr>
     ''Empty rule.'' \<lparr>p_line = Some 3, p_col = Some 1\<rparr> ''empty-rules''
   = \<lparr>r_messages = [], r_stats = [], r_lines = [], r_ruleset = 0, r_allow = [],
      r_ignore = [(2, 4)]\<rparr>"
  using report_unless_allowed_or_ignored
    [of "\<lparr>r_messages = [], r_stats = [], r_lines = [], r_ruleset = 0, r_allow = [],
          r_ignore = [(2, 4)]\<rparr>"
        "\<lparr>p_line = Some 3, p_col = Some 1\<rparr>" "''empty-rules''"
        "[[(''empty-rules'', 1)]]" "''Empty rule.''" 2 4]
  by (simp add: line_of_def)

section \<open>Levels\<close>




section \<open>An ignore range left open\<close>

text \<open>
  C6. When the loop over the directives ends, \<^verbatim>\<open>lineno\<close> is the line of the last directive
  comment, not the last line of the text. For the three lines

  \<^verbatim>\<open>/* csslint ignore:start */\<close>
  \<^verbatim>\<open>.a{color:red!important}\<close>
  \<^verbatim>\<open>.b{}\<close>

  the range appended for the open \<^verbatim>\<open>ignore:start\<close> is \<open>[1, 1]\<close>, and \<^verbatim>\<open>verify\<close> returns the
  \<^verbatim>\<open>important\<close> message of line 2.
\<close>

theorem open_ignore_range_ends_at_last_directive:
  "applyEmbeddedOverrides
      (''/* csslint ignore:start */'' @ [CHR 0x0A] @ ''.a{color:red!important}'' @ [CHR 0x0A]
         @ ''.b{}'')
      (nat (probe (''/* csslint ignore:start */'' @ [CHR 0x0A] @ ''.a{color:red!important}''
         @ [CHR 0x0A] @ ''.b{}'')))
      [(''important'', 1)] [] []
     = ([(''important'', 1)], [], [(1, 1)])
   \<and> length (split_on (CHR 0x0A)
        (''/* csslint ignore:start */'' @ [CHR 0x0A] @ ''.a{color:red!important}'' @ [CHR 0x0A]
           @ ''.b{}'')) = 3
   \<and> map m_line (messages_of (fst (verify catalog
        \<lparr>pr_events =
           [Property \<lparr>pt_text = ''color'', pt_lowText = None, pt_vendorPos = 0\<rparr> ''red'' True
              \<lparr>p_line = Some 2, p_col = Some 4\<rparr>,
            EndStylesheet],
         pr_fatal = None\<rparr>
        [[(''important'', 1)]]
        (''/* csslint ignore:start */'' @ [CHR 0x0A] @ ''.a{color:red!important}'' @ [CHR 0x0A]
           @ ''.b{}'') (Some 0))))
       = [Some 2]"
  by code_simp

section \<open>The floats rule\<close>

text \<open>
  C7. Let the registry hold the \<^verbatim>\<open>floats\<close> rule, let the effective ruleset enable it, and
  let the parser fire \<^verbatim>\<open>endstylesheet\<close> once, after every other event. With 9 counted float
  properties no returned message is the rule's; with 10 the rule has exactly one returned
  message, a rollup warning whose text starts with \<^verbatim>\<open>Too many floats (10)\<close>.
\<close>

theorem floats_rule_boundary:
  assumes vr: "verify_reporter rules run h t arg = (r, h', rs)"
    and wf: "\<forall>a. arg = Some a \<longrightarrow> a < length h \<and> distinct (map fst (h ! a))"
    and reg: "obj_get rules ''floats'' = Some floats_rule"
    and on: "obj_get (h' ! rs) ''floats'' = Some lvl" "lvl \<noteq> 0"
    and evs: "pr_events run = evs @ [EndStylesheet]" "EndStylesheet \<notin> set evs"
  shows "(length (filter float_not_none evs) = 9
            \<longrightarrow> by_rule ''floats'' (messages_of (fst (verify rules run h t arg))) = [])
       \<and> (length (filter float_not_none evs) = 10
            \<longrightarrow> by_rule ''floats'' (messages_of (fst (verify rules run h t arg)))
                = [\<lparr>m_type = Warning, m_evidence = None, m_line = None, m_col = None,
                    m_message = ''Too many floats (10)'' @ '', you'' @ [CHR 0x27] @
                      ''re probably using them for layout. Consider using a grid system instead.'',
                    m_rule = Some ''floats'', m_rollup = True\<rparr>])"
proof -
  have pm: "postprocess (rollup_message Warning (floats_message 10) (Some ''floats''))
      = \<lparr>m_type = Warning, m_evidence = None, m_line = None, m_col = None,
          m_message = ''Too many floats (10)'' @ '', you'' @ [CHR 0x27] @
            ''re probably using them for layout. Consider using a grid system instead.'',
          m_rule = Some ''floats'', m_rollup = True\<rparr>"
    by code_simp
  show ?thesis
    unfolding verify_floats_messages[OF assms] using pm by simp
qed

text \<open>Ten blocks with \<^verbatim>\<open>float:left\<close>, and nine, under the default ruleset.\<close>

theorem floats_rule_boundary_witness:
  "by_rule ''floats'' (messages_of (fst (verify catalog
       \<lparr>pr_events =
          map (\<lambda>k. Property \<lparr>pt_text = ''float'', pt_lowText = None, pt_vendorPos = 0\<rparr> ''left''
                       False \<lparr>p_line = Some (int k + 1), p_col = Some 4\<rparr>) [0..<10]
          @ [EndStylesheet],
        pr_fatal = None\<rparr>
       [] (concat (replicate 10 (''.a{float:left}'' @ [CHR 0x0A]))) None)))
     = [\<lparr>m_type = Warning, m_evidence = None, m_line = None, m_col = None,
         m_message = ''Too many floats (10), you'' @ [CHR 0x27] @
           ''re probably using them for layout. Consider using a grid system instead.'',
         m_rule = Some ''floats'', m_rollup = True\<rparr>]
   \<and> by_rule ''floats'' (messages_of (fst (verify catalog
       \<lparr>pr_events =
          map (\<lambda>k. Property \<lparr>pt_text = ''float'', pt_lowText = None, pt_vendorPos = 0\<rparr> ''left''
                       False \<lparr>p_line = Some (int k + 1), p_col = Some 4\<rparr>) [0..<9]
          @ [EndStylesheet],
        pr_fatal = None\<rparr>
       [] (concat (replicate 9 (''.a{float:left}'' @ [CHR 0x0A]))) None))) = []"
proof -
  let ?ev = "\<lambda>k. Property \<lparr>pt_text = ''float'', pt_lowText = None, pt_vendorPos = 0\<rparr> ''left''
                       False \<lparr>p_line = Some (int k + 1), p_col = Some 4\<rparr>"
  let ?run = "\<lambda>n. \<lparr>pr_events = map ?ev [0..<n] @ [EndStylesheet], pr_fatal = None\<rparr>"
  let ?t = "\<lambda>n. concat (replicate n (''.a{float:left}'' @ [CHR 0x0A]))"
  have reg: "obj_get catalog ''floats'' = Some floats_rule"
    by (simp add: catalog_def obj_get_def)
  have wf: "\<forall>a. (None :: ref option) = Some a \<longrightarrow> a < length ([] :: store) \<and> distinct (map fst (([] :: store) ! a))"
    by simp
  obtain r h' rs where vr: "verify_reporter catalog (?run 10) [] (?t 10) None = (r, h', rs)"
    by (cases "verify_reporter catalog (?run 10) [] (?t 10) None")
  have "obj_get (fst (snd (verify_reporter catalog (?run 10) [] (?t 10) None))
                  ! snd (snd (verify_reporter catalog (?run 10) [] (?t 10) None))) ''floats'' = Some 1"
    by code_simp
  with vr have on: "obj_get (h' ! rs) ''floats'' = Some 1" by simp
  have ne: "EndStylesheet \<notin> set (map ?ev [0..<10])" by auto
  have n: "length (filter float_not_none (map ?ev [0..<10])) = 10" by code_simp
  obtain r9 h9 rs9 where vr9: "verify_reporter catalog (?run 9) [] (?t 9) None = (r9, h9, rs9)"
    by (cases "verify_reporter catalog (?run 9) [] (?t 9) None")
  have "obj_get (fst (snd (verify_reporter catalog (?run 9) [] (?t 9) None))
                  ! snd (snd (verify_reporter catalog (?run 9) [] (?t 9) None))) ''floats'' = Some 1"
    by code_simp
  with vr9 have on9: "obj_get (h9 ! rs9) ''floats'' = Some 1" by simp
  have ne9: "EndStylesheet \<notin> set (map ?ev [0..<9])" by auto
  have n9: "length (filter float_not_none (map ?ev [0..<9])) = 9" by code_simp
  from floats_rule_boundary[OF vr wf reg on _ _ ne] n
    floats_rule_boundary[OF vr9 wf reg on9 _ _ ne9] n9
  show ?thesis by simp
qed

section \<open>Post-processing\<close>

lemma find_from_miss: "c \<notin> set s \<Longrightarrow> find_from [c] i s = -1"
  by (induction s arbitrary: i) (auto simp: starts_with_def)

lemma find_from_nonneg: "c \<in> set s \<Longrightarrow> 0 \<le> find_from [c] i s"
  by (induction s arbitrary: i) (auto simp: starts_with_def)

lemma postprocess_unchanged: "CHR ''<'' \<notin> set (m_message m) \<Longrightarrow> postprocess m = m"
  by (simp add: postprocess_def indexOf_def clamp_index_def find_from_miss)

lemma postprocess_replaces:
  "CHR ''<'' \<in> set (m_message m) \<Longrightarrow> postprocess m = m\<lparr>m_message := replace_abbr (m_message m)\<rparr>"
  by (simp add: postprocess_def indexOf_def clamp_index_def find_from_nonneg)

lemma lt_not_word: "\<not> is_word CHR ''<''"
  by code_simp

lemma gt_not_word: "\<not> is_word CHR ''>''"
  by code_simp

lemma lt_in_take:
  "length cs < n \<Longrightarrow> CHR ''<'' \<in> set (take n (cs @ CHR ''<'' # rest))"
  by (simp add: take_Cons')

lemma not_word_next_ext:
  "not_word_next (xs @ CHR ''<'' # r) = not_word_next (xs @ CHR ''<'' # r')"
  by (cases xs) (simp_all add: not_word_next_def)

lemma abbr_at_short_ext:
  "(take 3 (cs @ CHR ''<'' # r) \<in> set [''int'', ''len'', ''num'', ''pct'']
      \<and> not_word_next (drop 3 (cs @ CHR ''<'' # r)))
   = (take 3 (cs @ CHR ''<'' # r') \<in> set [''int'', ''len'', ''num'', ''pct'']
      \<and> not_word_next (drop 3 (cs @ CHR ''<'' # r')))"
proof (cases "3 \<le> length cs")
  case True
  then show ?thesis using not_word_next_ext[of "drop 3 cs" r r'] by simp
next
  case False
  then have l: "length cs < 3" by simp
  have "CHR ''<'' \<in> set (take 3 (cs @ CHR ''<'' # r))"
    "CHR ''<'' \<in> set (take 3 (cs @ CHR ''<'' # r'))"
    by (rule lt_in_take[OF l])+
  moreover have "x \<notin> set [''int'', ''len'', ''num'', ''pct'']" if "CHR ''<'' \<in> set x" for x
    using that by auto
  ultimately show ?thesis by blast
qed

lemma abbr_at_rel_ext:
  "(take 4 (cs @ CHR ''<'' # r) = ''rel-'' \<and> length (take 3 (drop 4 (cs @ CHR ''<'' # r))) = 3
      \<and> list_all is_word (take 3 (drop 4 (cs @ CHR ''<'' # r)))
      \<and> not_word_next (drop 7 (cs @ CHR ''<'' # r)))
   = (take 4 (cs @ CHR ''<'' # r') = ''rel-'' \<and> length (take 3 (drop 4 (cs @ CHR ''<'' # r'))) = 3
      \<and> list_all is_word (take 3 (drop 4 (cs @ CHR ''<'' # r')))
      \<and> not_word_next (drop 7 (cs @ CHR ''<'' # r')))"
proof (cases "7 \<le> length cs")
  case True
  then show ?thesis using not_word_next_ext[of "drop 7 cs" r r'] by simp
next
  case False
  have no: "\<not> (take 4 s = ''rel-'' \<and> list_all is_word (take 3 (drop 4 s)))"
    if "CHR ''<'' \<in> set (take 7 s)" for s
  proof -
    have "take 7 s = take 4 s @ take 3 (drop 4 s)" using take_add[of 4 3 s] by simp
    with that have "CHR ''<'' \<in> set (take 4 s) \<or> CHR ''<'' \<in> set (take 3 (drop 4 s))" by auto
    then show ?thesis using lt_not_word by (auto simp: list_all_iff)
  qed
  from False have l: "length cs < 7" by simp
  have "CHR ''<'' \<in> set (take 7 (cs @ CHR ''<'' # r))"
    "CHR ''<'' \<in> set (take 7 (cs @ CHR ''<'' # r'))"
    by (rule lt_in_take[OF l])+
  from no[OF this(1)] no[OF this(2)] show ?thesis by blast
qed

lemma abbr_at_prefix:
  assumes "abbr_at s = Some str"
  shows "str = take (length str) s \<and> CHR ''<'' \<notin> set str"
proof -
  have w: "list_all is_word xs \<Longrightarrow> CHR ''<'' \<notin> set xs" for xs
    using lt_not_word by (auto simp: list_all_iff)
  consider (short) "take 3 s \<in> set [''int'', ''len'', ''num'', ''pct'']" "str = take 3 s"
    | (rel) "take 4 s = ''rel-''" "length (take 3 (drop 4 s)) = 3"
        "list_all is_word (take 3 (drop 4 s))" "str = take 7 s"
    using assms by (auto simp: abbr_at_def split: if_splits)
  then show ?thesis
  proof cases
    case short
    then have m: "str \<in> {''int'', ''len'', ''num'', ''pct''}" by simp
    then have "length str = 3" by auto
    with short(2) have t: "str = take (length str) s" by simp
    from m have "CHR ''<'' \<notin> set str" by auto
    with t show ?thesis by blast
  next
    case rel
    have "take 7 s = take 4 s @ take 3 (drop 4 s)"
      using take_add[of 4 3 s] by simp
    with rel w[of "take 3 (drop 4 s)"] have "CHR ''<'' \<notin> set str" by auto
    moreover have "length s \<ge> 7" using rel(2) by simp
    ultimately show ?thesis using rel by simp
  qed
qed


lemma abbr_at_before_lt:
  assumes "abbr_at (cs @ CHR ''<'' # rest) = Some str"
  shows "length str \<le> length cs"
proof (rule ccontr)
  assume "\<not> length str \<le> length cs"
  then have lt: "length cs < length str" by simp
  from abbr_at_prefix[OF assms] have p: "str = take (length str) (cs @ CHR ''<'' # rest)"
    and n: "CHR ''<'' \<notin> set str" by auto
  have "take (length str) (cs @ CHR ''<'' # rest) ! length cs = (cs @ CHR ''<'' # rest) ! length cs"
    using lt by (rule nth_take)
  with p have "str ! length cs = (cs @ CHR ''<'' # rest) ! length cs" by simp
  then have "str ! length cs = CHR ''<''" by simp
  with lt n show False by (metis nth_mem)
qed

lemma abbr_at_short:
  "take 3 s \<in> set [''int'', ''len'', ''num'', ''pct''] \<and> not_word_next (drop 3 s)
   \<Longrightarrow> abbr_at s = Some (take 3 s)"
  by (simp add: abbr_at_def)

lemma abbr_at_rel:
  "\<not> (take 3 s \<in> set [''int'', ''len'', ''num'', ''pct''] \<and> not_word_next (drop 3 s))
   \<Longrightarrow> take 4 s = ''rel-'' \<and> length (take 3 (drop 4 s)) = 3
      \<and> list_all is_word (take 3 (drop 4 s)) \<and> not_word_next (drop 7 s)
   \<Longrightarrow> abbr_at s = Some (take 7 s)"
  unfolding abbr_at_def by (simp only: if_False if_True simp_thms)

lemma abbr_at_ext:
  assumes "abbr_at (cs @ CHR ''<'' # r) = Some str"
  shows "abbr_at (cs @ CHR ''<'' # r') = Some str"
proof -
  let ?s = "cs @ CHR ''<'' # r" and ?s' = "cs @ CHR ''<'' # r'"
  from abbr_at_before_lt[OF assms] have le: "length str \<le> length cs" .
  from abbr_at_prefix[OF assms] have p: "str = take (length str) ?s" by simp
  from le have t: "take (length str) ?s' = take (length str) ?s" by simp
  show ?thesis
  proof (cases "take 3 ?s \<in> set [''int'', ''len'', ''num'', ''pct''] \<and> not_word_next (drop 3 ?s)")
    case True
    with assms have s3: "str = take 3 ?s" by (simp add: abbr_at_def)
    have "length x = 3" if "x \<in> set [''int'', ''len'', ''num'', ''pct'']" for x :: string
      using that by auto
    from this[of "take 3 ?s"] True s3 have l3: "length str = 3" by blast
    have "take 3 ?s' = take 3 ?s" using t unfolding l3 .
    also have "\<dots> = str" using s3 by (rule sym)
    finally have "take 3 ?s' = str" .
    moreover from True abbr_at_short_ext[of cs r r'] have
      "take 3 ?s' \<in> set [''int'', ''len'', ''num'', ''pct''] \<and> not_word_next (drop 3 ?s')"
      by blast
    then have "abbr_at ?s' = Some (take 3 ?s')" by (rule abbr_at_short)
    ultimately show ?thesis by (simp only:)
  next
    case False
    with assms have rel: "take 4 ?s = ''rel-'' \<and> length (take 3 (drop 4 ?s)) = 3
      \<and> list_all is_word (take 3 (drop 4 ?s)) \<and> not_word_next (drop 7 ?s)"
      and s7: "str = take 7 ?s"
      by (auto simp: abbr_at_def split: if_splits)
    have "length (take 7 x) = 7" if "length (take 3 (drop 4 x)) = 3" for x :: string
      using that by simp
    from this[of ?s] rel s7 have l7: "length str = 7" by blast
    have "take 7 ?s' = take 7 ?s" using t unfolding l7 .
    also have "\<dots> = str" using s7 by (rule sym)
    finally have "take 7 ?s' = str" .
    moreover have "abbr_at ?s' = Some (take 7 ?s')"
    proof (rule abbr_at_rel)
      from False abbr_at_short_ext[of cs r r'] show
        "\<not> (take 3 ?s' \<in> set [''int'', ''len'', ''num'', ''pct''] \<and> not_word_next (drop 3 ?s'))"
        by blast
      from rel abbr_at_rel_ext[of cs r r'] show
        "take 4 ?s' = ''rel-'' \<and> length (take 3 (drop 4 ?s')) = 3
        \<and> list_all is_word (take 3 (drop 4 ?s')) \<and> not_word_next (drop 7 ?s')"
        by blast
    qed
    ultimately show ?thesis by (simp only:)
  qed
qed

lemma abbr_at_ext_None:
  "abbr_at (cs @ CHR ''<'' # r) = None \<Longrightarrow> abbr_at (cs @ CHR ''<'' # r') = None"
  using abbr_at_ext[of cs r'] by (cases "abbr_at (cs @ CHR ''<'' # r')") auto

lemma replace_abbr_nonempty: "s \<noteq> [] \<Longrightarrow> replace_abbr s \<noteq> []"
  by (cases s) (auto simp: unabbreviate_def Let_def split: option.splits)

lemma replace_abbr_lt [simp]: "replace_abbr ''<'' = ''<''"
  by (simp add: abbr_at_def)

lemma replace_abbr_before_lt:
  "replace_abbr (pre @ CHR ''<'' # rest)
     = butlast (replace_abbr (pre @ ''<'')) @ replace_abbr (CHR ''<'' # rest)"
proof (induction pre rule: length_induct)
  case (1 pre)
  show ?case
  proof (cases pre)
    case Nil
    then show ?thesis by (simp add: abbr_at_def)
  next
    case (Cons c cs)
    have ne: "replace_abbr (xs @ ''<'') \<noteq> []" for xs
      by (rule replace_abbr_nonempty) simp
    show ?thesis
    proof (cases "(c = CHR ''-'' \<or> c = CHR ''<'') \<and> abbr_at (cs @ CHR ''<'' # rest) \<noteq> None")
      case True
      then obtain str where str: "abbr_at (cs @ CHR ''<'' # rest) = Some str" by auto
      from abbr_at_ext[OF str] have str': "abbr_at (cs @ ''<'') = Some str" .
      from abbr_at_before_lt[OF str] have le: "length str \<le> length cs" .
      let ?d = "drop (length str) cs"
      have d: "drop (length str) (cs @ CHR ''<'' # rest) = ?d @ CHR ''<'' # rest"
        "drop (length str) (cs @ ''<'') = ?d @ ''<''"
        using le by simp_all
      have "length ?d < length pre" using Cons by simp
      with 1 have ih: "replace_abbr (?d @ CHR ''<'' # rest)
          = butlast (replace_abbr (?d @ ''<'')) @ replace_abbr (CHR ''<'' # rest)"
        by blast
      have a: "replace_abbr (pre @ CHR ''<'' # rest)
          = unabbreviate c str @ replace_abbr (?d @ CHR ''<'' # rest)"
        using True str d Cons by simp
      have b: "replace_abbr (pre @ ''<'') = unabbreviate c str @ replace_abbr (?d @ ''<'')"
        using True str' d Cons by simp
      show ?thesis unfolding a b ih using ne[of ?d] by (simp add: butlast_append)
    next
      case False
      then have f': "\<not> ((c = CHR ''-'' \<or> c = CHR ''<'') \<and> abbr_at (cs @ ''<'') \<noteq> None)"
        using abbr_at_ext[of cs "[]" _ rest] by (cases "abbr_at (cs @ ''<'')") auto
      have "length cs < length pre" using Cons by simp
      with 1 have ih: "replace_abbr (cs @ CHR ''<'' # rest)
          = butlast (replace_abbr (cs @ ''<'')) @ replace_abbr (CHR ''<'' # rest)"
        by blast
      have a: "replace_abbr (pre @ CHR ''<'' # rest) = c # replace_abbr (cs @ CHR ''<'' # rest)"
        using False Cons by (auto split: option.splits)
      have b: "replace_abbr (pre @ ''<'') = c # replace_abbr (cs @ ''<'')"
        using f' Cons by (auto split: option.splits)
      show ?thesis unfolding a b ih using ne[of cs] by simp
    qed
  qed
qed

lemma replace_abbr_int: "replace_abbr (''<int>'' @ post) = ''<integer>'' @ replace_abbr post"
proof -
  have "abbr_at (''int>'' @ post) = Some ''int''"
    using gt_not_word by (simp add: abbr_at_def not_word_next_def)
  moreover have "unabbreviate CHR ''<'' ''int'' = ''<integer''"
    by (simp add: unabbreviate_def ABBR_MAP_def)
  ultimately show ?thesis by simp
qed

lemma replace_abbr_plain: "plain s \<Longrightarrow> replace_abbr (s @ t) = s @ replace_abbr t"
  by (induction s) (auto simp: plain_def)


lemma replace_abbr_no_abbr: "no_abbr s \<Longrightarrow> replace_abbr s = s"
  by (induction s) auto

lemma abbr_at_entry:
  assumes "(str, full) \<in> set [(''int'', ''integer''), (''len'', ''length''), (''num'', ''number''),
             (''pct'', ''percentage''),
             (''rel-hsl'', ''h-s-l-alpha-none''), (''rel-hwb'', ''h-w-b-alpha-none''),
             (''rel-lab'', ''l-a-b-alpha-none''), (''rel-lch'', ''l-c-h-alpha-none''),
             (''rel-rgb'', ''r-g-b-alpha-none'')]"
    and "\<not> is_word w"
  shows "abbr_at (str @ w # rest) = Some str \<and> ABBR_MAP str = Some full"
proof -
  have w: "list_all is_word ''hsl''" "list_all is_word ''hwb''" "list_all is_word ''lab''"
    "list_all is_word ''lch''" "list_all is_word ''rgb''"
    by code_simp+
  have nw: "not_word_next (w # rest)" using assms(2) by (simp add: not_word_next_def)
  have e: "abbr_at (''int'' @ w # rest) = Some ''int'' \<and> ABBR_MAP ''int'' = Some ''integer''"
    "abbr_at (''len'' @ w # rest) = Some ''len'' \<and> ABBR_MAP ''len'' = Some ''length''"
    "abbr_at (''num'' @ w # rest) = Some ''num'' \<and> ABBR_MAP ''num'' = Some ''number''"
    "abbr_at (''pct'' @ w # rest) = Some ''pct'' \<and> ABBR_MAP ''pct'' = Some ''percentage''"
    "abbr_at (''rel-hsl'' @ w # rest) = Some ''rel-hsl''
       \<and> ABBR_MAP ''rel-hsl'' = Some ''h-s-l-alpha-none''"
    "abbr_at (''rel-hwb'' @ w # rest) = Some ''rel-hwb''
       \<and> ABBR_MAP ''rel-hwb'' = Some ''h-w-b-alpha-none''"
    "abbr_at (''rel-lab'' @ w # rest) = Some ''rel-lab''
       \<and> ABBR_MAP ''rel-lab'' = Some ''l-a-b-alpha-none''"
    "abbr_at (''rel-lch'' @ w # rest) = Some ''rel-lch''
       \<and> ABBR_MAP ''rel-lch'' = Some ''l-c-h-alpha-none''"
    "abbr_at (''rel-rgb'' @ w # rest) = Some ''rel-rgb''
       \<and> ABBR_MAP ''rel-rgb'' = Some ''r-g-b-alpha-none''"
    using nw w by (simp_all add: abbr_at_def ABBR_MAP_def)
  from assms(1) have "(str = ''int'' \<and> full = ''integer'')
    \<or> (str = ''len'' \<and> full = ''length'')
    \<or> (str = ''num'' \<and> full = ''number'')
    \<or> (str = ''pct'' \<and> full = ''percentage'')
    \<or> (str = ''rel-hsl'' \<and> full = ''h-s-l-alpha-none'')
    \<or> (str = ''rel-hwb'' \<and> full = ''h-w-b-alpha-none'')
    \<or> (str = ''rel-lab'' \<and> full = ''l-a-b-alpha-none'')
    \<or> (str = ''rel-lch'' \<and> full = ''l-c-h-alpha-none'')
    \<or> (str = ''rel-rgb'' \<and> full = ''r-g-b-alpha-none'')"
    by (simp only: list.set insert_iff empty_iff prod.inject simp_thms)
  then show ?thesis
    by (elim disjE conjE; simp only: e simp_thms)
qed

lemma replace_abbr_entry:
  assumes "c = CHR ''-'' \<or> c = CHR ''<''"
    and "(str, full) \<in> set [(''int'', ''integer''), (''len'', ''length''), (''num'', ''number''),
             (''pct'', ''percentage''),
             (''rel-hsl'', ''h-s-l-alpha-none''), (''rel-hwb'', ''h-w-b-alpha-none''),
             (''rel-lab'', ''l-a-b-alpha-none''), (''rel-lch'', ''l-c-h-alpha-none''),
             (''rel-rgb'', ''r-g-b-alpha-none'')]"
    and "\<not> is_word w"
  shows "replace_abbr (c # str @ w # rest) = c # full @ replace_abbr (w # rest)"
proof -
  from abbr_at_entry[OF assms(2,3)] have
    a: "abbr_at (str @ w # rest) = Some str" and b: "ABBR_MAP str = Some full" by blast+
  from b have "unabbreviate c str = c # full" by (simp add: unabbreviate_def)
  with a assms(1) show ?thesis by (simp del: replace_abbr.simps add: replace_abbr.simps(2)[of c])
qed


lemma postprocess_int:
  assumes a: "m_message m = pre @ ''<int>'' @ post"
  shows "postprocess m
          = m\<lparr>m_message := butlast (replace_abbr (pre @ ''<'')) @ ''<integer>''
                               @ replace_abbr post\<rparr>"
proof -
  from a have "CHR ''<'' \<in> set (m_message m)" by simp
  from postprocess_replaces[OF this]
  have "postprocess m = m\<lparr>m_message := replace_abbr (pre @ ''<int>'' @ post)\<rparr>"
    unfolding a .
  moreover have "replace_abbr (pre @ ''<int>'' @ post)
     = butlast (replace_abbr (pre @ ''<'')) @ replace_abbr (''<int>'' @ post)"
    using replace_abbr_before_lt[of pre "''int>'' @ post"] by simp
  ultimately show ?thesis by (simp only: replace_abbr_int)
qed

text \<open>
  C8. \<^verbatim>\<open>verify\<close> post-processes every message it returns, and post-processing expands the
  grammar abbreviations where \<^verbatim>\<open>rxGrammarAbbr\<close> matches and nowhere else. A message whose text
  has no \<^verbatim>\<open><\<close> comes back as it was. In a message whose text is \<open>pre\<close>, \<^verbatim>\<open><int>\<close>, \<open>post\<close>
  that occurrence becomes \<^verbatim>\<open><integer>\<close>, no other field changes, and the text on either side is
  rewritten on its own: \<open>post\<close> as it would be alone, \<open>pre\<close> as it would be before a lone
  \<^verbatim>\<open><\<close>; when the expression matches nowhere in them (\<open>no_abbr\<close>) both sides are kept
  character for character. A text in which the expression matches nowhere is unchanged even if
  it has a \<^verbatim>\<open><\<close>. Each entry of \<^verbatim>\<open>ABBR_MAP\<close>, after \<^verbatim>\<open>-\<close> or \<^verbatim>\<open><\<close> and before a character that
  is not a word character, is replaced by its expansion, with the text around it kept.
\<close>

theorem postprocess_expands_abbreviations:
  "messages_of (fst (verify rules run h t arg))
     = map postprocess (sort_messages (r_messages (fst (verify_reporter rules run h t arg))))
   \<and> (CHR ''<'' \<notin> set (m_message m) \<longrightarrow> postprocess m = m)
   \<and> (m_message m = pre @ ''<int>'' @ post \<longrightarrow>
        postprocess m
          = m\<lparr>m_message := butlast (replace_abbr (pre @ ''<'')) @ ''<integer>''
                               @ replace_abbr post\<rparr>)
   \<and> (m_message m = pre @ ''<int>'' @ post \<and> no_abbr (pre @ ''<'') \<and> no_abbr post \<longrightarrow>
        postprocess m = m\<lparr>m_message := pre @ ''<integer>'' @ post\<rparr>)
   \<and> (no_abbr (m_message m) \<longrightarrow> postprocess m = m)
   \<and> (m_message m = pre @ c # str @ w # post \<and> CHR ''<'' \<in> set (m_message m)
        \<and> plain pre \<and> (c = CHR ''-'' \<or> c = CHR ''<'')
        \<and> (str, full) \<in> set [(''int'', ''integer''), (''len'', ''length''), (''num'', ''number''),
             (''pct'', ''percentage''),
             (''rel-hsl'', ''h-s-l-alpha-none''), (''rel-hwb'', ''h-w-b-alpha-none''),
             (''rel-lab'', ''l-a-b-alpha-none''), (''rel-lch'', ''l-c-h-alpha-none''),
             (''rel-rgb'', ''r-g-b-alpha-none'')]
        \<and> \<not> is_word w \<and> no_abbr (w # post) \<longrightarrow>
        postprocess m = m\<lparr>m_message := pre @ c # full @ w # post\<rparr>)"
proof (intro conjI impI)
  obtain r h' rs where vr: "verify_reporter rules run h t arg = (r, h', rs)"
    by (cases "verify_reporter rules run h t arg")
  from messages_of_verify[OF vr] vr
  show "messages_of (fst (verify rules run h t arg))
     = map postprocess (sort_messages (r_messages (fst (verify_reporter rules run h t arg))))"
    by simp
next
  assume "CHR ''<'' \<notin> set (m_message m)"
  then show "postprocess m = m" by (rule postprocess_unchanged)
next
  assume a: "m_message m = pre @ ''<int>'' @ post"
  show "postprocess m
          = m\<lparr>m_message := butlast (replace_abbr (pre @ ''<'')) @ ''<integer>''
                               @ replace_abbr post\<rparr>"
    using a by (rule postprocess_int)
next
  assume a: "m_message m = pre @ ''<int>'' @ post \<and> no_abbr (pre @ ''<'') \<and> no_abbr post"
  then have "replace_abbr (pre @ ''<'') = pre @ ''<''" "replace_abbr post = post"
    by (simp_all only: replace_abbr_no_abbr)
  with postprocess_int[of m pre post] a
  show "postprocess m = m\<lparr>m_message := pre @ ''<integer>'' @ post\<rparr>"
    by (simp only: butlast_snoc)
next
  assume a: "no_abbr (m_message m)"
  show "postprocess m = m"
  proof (cases "CHR ''<'' \<in> set (m_message m)")
    case True
    from postprocess_replaces[OF True] a show ?thesis by (simp add: replace_abbr_no_abbr)
  next
    case False
    then show ?thesis by (rule postprocess_unchanged)
  qed
next
  assume a: "m_message m = pre @ c # str @ w # post \<and> CHR ''<'' \<in> set (m_message m)
        \<and> plain pre \<and> (c = CHR ''-'' \<or> c = CHR ''<'')
        \<and> (str, full) \<in> set [(''int'', ''integer''), (''len'', ''length''), (''num'', ''number''),
             (''pct'', ''percentage''),
             (''rel-hsl'', ''h-s-l-alpha-none''), (''rel-hwb'', ''h-w-b-alpha-none''),
             (''rel-lab'', ''l-a-b-alpha-none''), (''rel-lch'', ''l-c-h-alpha-none''),
             (''rel-rgb'', ''r-g-b-alpha-none'')]
        \<and> \<not> is_word w \<and> no_abbr (w # post)"
  then have lt: "CHR ''<'' \<in> set (m_message m)" and msg: "m_message m = pre @ c # str @ w # post"
    and pl: "plain pre" and c: "c = CHR ''-'' \<or> c = CHR ''<''"
    and e: "(str, full) \<in> set [(''int'', ''integer''), (''len'', ''length''), (''num'', ''number''),
             (''pct'', ''percentage''),
             (''rel-hsl'', ''h-s-l-alpha-none''), (''rel-hwb'', ''h-w-b-alpha-none''),
             (''rel-lab'', ''l-a-b-alpha-none''), (''rel-lch'', ''l-c-h-alpha-none''),
             (''rel-rgb'', ''r-g-b-alpha-none'')]"
    and w: "\<not> is_word w" and n: "no_abbr (w # post)"
    by blast+
  have "replace_abbr (pre @ c # str @ w # post) = pre @ replace_abbr (c # str @ w # post)"
    using pl by (rule replace_abbr_plain)
  also have "replace_abbr (c # str @ w # post) = c # full @ replace_abbr (w # post)"
    using c e w by (rule replace_abbr_entry)
  also have "replace_abbr (w # post) = w # post" using n by (rule replace_abbr_no_abbr)
  finally have "replace_abbr (m_message m) = pre @ c # full @ w # post" unfolding msg .
  with postprocess_replaces[OF lt]
  show "postprocess m = m\<lparr>m_message := pre @ c # full @ w # post\<rparr>" by (simp only:)
qed

theorem postprocess_expands_abbreviations_witness:
  "postprocess
        \<lparr>m_type = Warning, m_evidence = None, m_line = Some 1, m_col = Some 1,
         m_message = ''Expected <int> but found x.'', m_rule = Some ''known-properties'',
         m_rollup = False\<rparr>
     = \<lparr>m_type = Warning, m_evidence = None, m_line = Some 1, m_col = Some 1,
         m_message = ''Expected <integer> but found x.'', m_rule = Some ''known-properties'',
         m_rollup = False\<rparr>
   \<and> postprocess
        \<lparr>m_type = Warning, m_evidence = None, m_line = Some 1, m_col = Some 1,
         m_message = ''Empty rule.'', m_rule = Some ''empty-rules'',
         m_rollup = False\<rparr>
     = \<lparr>m_type = Warning, m_evidence = None, m_line = Some 1, m_col = Some 1,
         m_message = ''Empty rule.'', m_rule = Some ''empty-rules'',
         m_rollup = False\<rparr>
   \<and> postprocess
        \<lparr>m_type = Warning, m_evidence = None, m_line = Some 1, m_col = Some 1,
         m_message = ''Expected <color> but found x.'', m_rule = Some ''known-properties'',
         m_rollup = False\<rparr>
     = \<lparr>m_type = Warning, m_evidence = None, m_line = Some 1, m_col = Some 1,
         m_message = ''Expected <color> but found x.'', m_rule = Some ''known-properties'',
         m_rollup = False\<rparr>
   \<and> postprocess
        \<lparr>m_type = Warning, m_evidence = None, m_line = Some 1, m_col = Some 1,
         m_message = ''Expected <pct> but found x.'', m_rule = Some ''known-properties'',
         m_rollup = False\<rparr>
     = \<lparr>m_type = Warning, m_evidence = None, m_line = Some 1, m_col = Some 1,
         m_message = ''Expected <percentage> but found x.'', m_rule = Some ''known-properties'',
         m_rollup = False\<rparr>"
proof -
  let ?m1 = "\<lparr>m_type = Warning, m_evidence = None, m_line = Some 1, m_col = Some 1,
         m_message = ''Expected <int> but found x.'', m_rule = Some ''known-properties'',
         m_rollup = False\<rparr>"
  let ?m2 = "\<lparr>m_type = Warning, m_evidence = None, m_line = Some 1, m_col = Some 1,
         m_message = ''Empty rule.'', m_rule = Some ''empty-rules'',
         m_rollup = False\<rparr>"
  let ?m3 = "\<lparr>m_type = Warning, m_evidence = None, m_line = Some 1, m_col = Some 1,
         m_message = ''Expected <color> but found x.'', m_rule = Some ''known-properties'',
         m_rollup = False\<rparr>"
  let ?m4 = "\<lparr>m_type = Warning, m_evidence = None, m_line = Some 1, m_col = Some 1,
         m_message = ''Expected <pct> but found x.'', m_rule = Some ''known-properties'',
         m_rollup = False\<rparr>"
  have h1: "m_message ?m1 = ''Expected '' @ ''<int>'' @ '' but found x.''
      \<and> no_abbr (''Expected '' @ ''<'') \<and> no_abbr '' but found x.''"
    by code_simp
  have h2: "CHR ''<'' \<notin> set (m_message ?m2)"
    by code_simp
  have h3: "no_abbr (m_message ?m3)"
    by code_simp
  have h4: "m_message ?m4 = ''Expected '' @ CHR ''<'' # ''pct'' @ CHR ''>'' # '' but found x.''
        \<and> CHR ''<'' \<in> set (m_message ?m4)
        \<and> plain ''Expected '' \<and> (CHR ''<'' = CHR ''-'' \<or> CHR ''<'' = CHR ''<'')
        \<and> (''pct'', ''percentage'') \<in> set [(''int'', ''integer''), (''len'', ''length''), (''num'', ''number''),
             (''pct'', ''percentage''),
             (''rel-hsl'', ''h-s-l-alpha-none''), (''rel-hwb'', ''h-w-b-alpha-none''),
             (''rel-lab'', ''l-a-b-alpha-none''), (''rel-lch'', ''l-c-h-alpha-none''),
             (''rel-rgb'', ''r-g-b-alpha-none'')]
        \<and> \<not> is_word CHR ''>'' \<and> no_abbr (CHR ''>'' # '' but found x.'')"
    unfolding plain_def by code_simp
  from postprocess_expands_abbreviations
         [where m = ?m1 and pre = "''Expected ''" and post = "'' but found x.''"] h1
  have 1: "postprocess ?m1 = ?m1\<lparr>m_message := ''Expected '' @ ''<integer>'' @ '' but found x.''\<rparr>"
    by blast
  from postprocess_expands_abbreviations[where m = ?m2] h2
  have 2: "postprocess ?m2 = ?m2"
    by blast
  from postprocess_expands_abbreviations[where m = ?m3] h3
  have 3: "postprocess ?m3 = ?m3"
    by blast
  from postprocess_expands_abbreviations
        [where m = ?m4 and pre = "''Expected ''" and c = "CHR ''<''" and str = "''pct''"
           and full = "''percentage''" and w = "CHR ''>''" and post = "'' but found x.''"] h4
  have 4: "postprocess ?m4
       = ?m4\<lparr>m_message := ''Expected '' @ CHR ''<'' # ''percentage'' @ CHR ''>'' # '' but found x.''\<rparr>"
    by blast
  show ?thesis unfolding 1 2 3 4 by simp
qed

section \<open>Evidence\<close>

text \<open>\<^verbatim>\<open>verify\<close> builds its Reporter with \<^verbatim>\<open>new Reporter([], ruleset, allow, ignore)\<close>: the
  lines are the empty array, whatever the text is, so no message \<^verbatim>\<open>verify\<close> returns has
  evidence.\<close>

lemma verify_evidence_undefined:
  assumes "m \<in> set (messages_of (fst (verify rules run h text arg)))"
  shows "m_evidence m = None"
proof -
  obtain r h' rs where vr: "verify_reporter rules run h text arg = (r, h', rs)"
    by (cases "verify_reporter rules run h text arg")
  from assms messages_of_verify[OF vr] obtain m0 where
    m0: "m0 \<in> set (r_messages r)" "m = postprocess m0"
    by (auto simp: set_sort_messages)
  from verify_reporter_well_formed[OF vr] m0 have "m_evidence m0 = None" by blast
  with m0 show ?thesis by simp
qed

text \<open>
  C9. The Reporter's constructor documents its first argument as the text lines of the
  source, and \<^verbatim>\<open>error\<close>, \<^verbatim>\<open>report\<close> and \<^verbatim>\<open>info\<close> read the evidence from them, but \<^verbatim>\<open>verify\<close>
  passes the empty array. For the one-line text \<^verbatim>\<open>a{color:red!important}\<close> and the default
  ruleset, with the parser firing the property event at line 1, column 3, \<^verbatim>\<open>verify\<close> returns
  one message, on line 1 at column 3, whose evidence is undefined. Line 1 of the text exists
  and is \<^verbatim>\<open>a{color:red!important}\<close>; the lines of the Reporter that \<^verbatim>\<open>verify\<close> built are empty;
  a Reporter built on the lines of the text gives the same call that line as evidence.
\<close>

theorem verify_evidence_is_undefined:
  "map (\<lambda>m. (m_line m, m_col m, m_evidence m)) (messages_of (fst (verify catalog
       \<lparr>pr_events =
          [Property \<lparr>pt_text = ''color'', pt_lowText = None, pt_vendorPos = 0\<rparr> ''red'' True
             \<lparr>p_line = Some 1, p_col = Some 3\<rparr>,
           EndStylesheet],
        pr_fatal = None\<rparr>
       [] ''a{color:red!important}'' None))) = [(Some 1, Some 3, None)]
   \<and> at_index (split_on (CHR 0x0A) ''a{color:red!important}'') (1 - 1)
        = Some ''a{color:red!important}''
   \<and> r_lines (fst (verify_reporter catalog
       \<lparr>pr_events =
          [Property \<lparr>pt_text = ''color'', pt_lowText = None, pt_vendorPos = 0\<rparr> ''red'' True
             \<lparr>p_line = Some 1, p_col = Some 3\<rparr>,
           EndStylesheet],
        pr_fatal = None\<rparr>
       [] ''a{color:red!important}'' None)) = []
   \<and> map (\<lambda>m. (m_line m, m_col m, m_evidence m))
        (r_messages (report [[(''important'', 1)]]
           (new_Reporter (split_on (CHR 0x0A) ''a{color:red!important}'') 0 [] [])
           ''!important.'' \<lparr>p_line = Some 1, p_col = Some 3\<rparr> ''important''))
       = [(Some 1, Some 3, Some ''a{color:red!important}'')]"
  by code_simp

section \<open>The caller's ruleset\<close>

lemma obj_get_obj_set:
  "obj_get (obj_set k v obj) k' = (if k' = k then Some v else obj_get obj k')"
  by (induction obj) (auto simp: obj_get_def)

text \<open>
  C10. For a caller that passes its ruleset object \<open>a\<close>: when the probe finds nothing
  (its value is negative), \<^verbatim>\<open>verify\<close> writes \<^verbatim>\<open>errors = 2\<close> into that very object and
  changes nothing else in the store; when the probe finds a place to scan from, a clone is
  allocated and the caller's object is as it was.
\<close>

theorem verify_writes_errors_to_caller_ruleset:
  "a < length h \<Longrightarrow>
     (if probe text < 0
      then snd (verify rules run h text (Some a)) = h[a := obj_set ''errors'' 2 (h ! a)]
           \<and> obj_get (snd (verify rules run h text (Some a)) ! a) ''errors'' = Some 2
      else length (snd (verify rules run h text (Some a))) = Suc (length h)
           \<and> take (length h) (snd (verify rules run h text (Some a))) = h
           \<and> snd (verify rules run h text (Some a)) ! a = h ! a)"
  by (auto simp: verify_def verify_reporter_def resolve_ruleset_def alloc_def Let_def
      obj_get_obj_set nth_append split: prod.splits)

theorem verify_writes_errors_to_caller_ruleset_witness:
  "snd (verify catalog \<lparr>pr_events = [], pr_fatal = None\<rparr> [[(''ids'', 1)]]
          ''a{color:red}'' (Some 0))
     = [[(''ids'', 1), (''errors'', 2)]]
   \<and> snd (verify catalog \<lparr>pr_events = [], pr_fatal = None\<rparr> [[(''ids'', 1)]]
            ''/* csslint x, ids:0 */ a{color:red}'' (Some 0)) ! 0 = [(''ids'', 1)]"
proof -
  have p1: "probe ''a{color:red}'' < 0" by code_simp
  have p2: "\<not> probe ''/* csslint x, ids:0 */ a{color:red}'' < 0" by code_simp
  show ?thesis
    using verify_writes_errors_to_caller_ruleset
        [of 0 "[[(''ids'', 1)]]" "''a{color:red}''" catalog "\<lparr>pr_events = [], pr_fatal = None\<rparr>"]
      verify_writes_errors_to_caller_ruleset
        [of 0 "[[(''ids'', 1)]]" "''/* csslint x, ids:0 */ a{color:red}''" catalog
            "\<lparr>pr_events = [], pr_fatal = None\<rparr>"]
      p1 p2
    by simp
qed

end
